theory Spec2Isabelle
  imports Main
begin

section \<open>Strings\<close>

text \<open>
  A JavaScript string is a sequence of UTF-16 code units. A code unit is modelled as a
  natural number and a string as a list of them, so that the arrow of the header line
  (U+2192, one code unit) and the white space that the regular expressions and
  \<^verbatim>\<open>trim\<close> recognise beyond ASCII are what they are in the source.
  An ASCII literal of the source is written \<open>lit ''...''\<close>.
\<close>

type_synonym jsstring = "nat list"

definition lit :: "string \<Rightarrow> jsstring" where
  "lit s = map of_char s"

definition NL :: nat where "NL = 10"
definition BACKTICK :: nat where "BACKTICK = 96"
definition ARROW :: nat where "ARROW = 8594"

text \<open>The character classes of the regular expressions (no \<^verbatim>\<open>i\<close> or \<^verbatim>\<open>u\<close> flag is used).\<close>

definition isSpace :: "nat \<Rightarrow> bool" where
  \<comment> \<open>\<^verbatim>\<open>\s\<close>, also the set that \<^verbatim>\<open>trim\<close> strips: WhiteSpace and LineTerminator of ECMAScript\<close>
  "isSpace c \<longleftrightarrow>
     (9 \<le> c \<and> c \<le> 13) \<or> c = 32 \<or> c = 160 \<or> c = 5760 \<or> (8192 \<le> c \<and> c \<le> 8202) \<or>
     c = 8232 \<or> c = 8233 \<or> c = 8239 \<or> c = 8287 \<or> c = 12288 \<or> c = 65279"

definition isLineTerminator :: "nat \<Rightarrow> bool" where
  \<comment> \<open>what \<^verbatim>\<open>.\<close> does not match without the \<^verbatim>\<open>s\<close> flag\<close>
  "isLineTerminator c \<longleftrightarrow> c = 10 \<or> c = 13 \<or> c = 8232 \<or> c = 8233"

definition isDigit :: "nat \<Rightarrow> bool" where
  "isDigit c \<longleftrightarrow> 48 \<le> c \<and> c \<le> 57"

definition isAlpha :: "nat \<Rightarrow> bool" where
  "isAlpha c \<longleftrightarrow> (65 \<le> c \<and> c \<le> 90) \<or> (97 \<le> c \<and> c \<le> 122)"

definition isWord :: "nat \<Rightarrow> bool" where
  "isWord c \<longleftrightarrow> isAlpha c \<or> isDigit c \<or> c = 95"

definition trim :: "jsstring \<Rightarrow> jsstring" where
  "trim s = rev (dropWhile isSpace (rev (dropWhile isSpace s)))"

fun splitNL :: "jsstring \<Rightarrow> jsstring list" where
  \<comment> \<open>\<^verbatim>\<open>s.split('\n')\<close>: never empty, the empty string gives one empty line\<close>
  "splitNL [] = [[]]"
| "splitNL (c # cs) =
     (if c = NL then [] # splitNL cs
      else (case splitNL cs of l # ls \<Rightarrow> (c # l) # ls | [] \<Rightarrow> [[c]]))"

fun joinNL :: "jsstring list \<Rightarrow> jsstring" where
  \<comment> \<open>\<^verbatim>\<open>xs.join('\n')\<close>\<close>
  "joinNL [] = []"
| "joinNL [x] = x"
| "joinNL (x # y # ys) = x @ NL # joinNL (y # ys)"

definition lowerCaseUnit :: "nat \<Rightarrow> jsstring" where
  \<comment> \<open>ASCII letters, and the two code units outside ASCII whose lower case has an ASCII
      letter (KELVIN SIGN, and I WITH DOT ABOVE). Every other unit outside ASCII has a
      lower case outside ASCII and is left as it is: this program lower-cases either
      ASCII letters only (field keys) or erases what is outside \<^verbatim>\<open>[a-z0-9]\<close> right
      after (generateRequestId).\<close>
  "lowerCaseUnit c =
     (if 65 \<le> c \<and> c \<le> 90 then [c + 32]
      else if c = 8490 then [107]
      else if c = 304 then [105, 775]
      else [c])"

definition toLowerCase :: "jsstring \<Rightarrow> jsstring" where
  "toLowerCase s = concat (map lowerCaseUnit s)"

definition truthy :: "jsstring option \<Rightarrow> bool" where
  \<comment> \<open>a string-valued property: \<^verbatim>\<open>null\<close>, \<^verbatim>\<open>undefined\<close> and the empty string are falsy\<close>
  "truthy v = (case v of None \<Rightarrow> False | Some s \<Rightarrow> s \<noteq> [])"

datatype jsnumber = Exact nat | Rounded nat | PosInfinity
  \<comment> \<open>the Number that a run of decimal digits denotes. \<open>Exact n\<close> is the integer \<open>n\<close>
      itself, which a double holds up to \<open>2 ^ 53\<close>; \<open>Rounded n\<close> is the double that stands
      for a larger \<open>n\<close>, an integer again but in general not \<open>n\<close>; \<open>PosInfinity\<close> is
      \<^verbatim>\<open>Infinity\<close>\<close>

fun decimalValue :: "jsstring \<Rightarrow> nat" where
  \<comment> \<open>the natural number written by a string of decimal digits\<close>
  "decimalValue s = foldl (\<lambda>acc d. acc * 10 + (d - 48)) 0 s"

definition toNumber :: "nat \<Rightarrow> jsnumber" where
  \<comment> \<open>rounding to the nearest double: exact up to \<open>2 ^ 53\<close>, and \<^verbatim>\<open>Infinity\<close> from half an
      ulp above the largest double, \<open>2 ^ 1024 - 2 ^ 971\<close>\<close>
  "toNumber n =
     (if n \<le> 2 ^ 53 then Exact n
      else if n < 2 ^ 1024 - 2 ^ 970 then Rounded n
      else PosInfinity)"

definition parseInt :: "jsstring \<Rightarrow> jsnumber" where
  \<comment> \<open>\<^verbatim>\<open>parseInt(s, 10)\<close> on a string of decimal digits\<close>
  "parseInt s = toNumber (decimalValue s)"

section \<open>Parser (lib/parser.js)\<close>

datatype msgType = REQUEST | RESPONSE | CLARIFY | HANDOFF | BROADCAST

definition typeName :: "msgType \<Rightarrow> jsstring" where
  "typeName t = (case t of REQUEST \<Rightarrow> lit ''REQUEST'' | RESPONSE \<Rightarrow> lit ''RESPONSE''
     | CLARIFY \<Rightarrow> lit ''CLARIFY'' | HANDOFF \<Rightarrow> lit ''HANDOFF'' | BROADCAST \<Rightarrow> lit ''BROADCAST'')"

definition VALID_TYPES :: "msgType list" where
  "VALID_TYPES = [REQUEST, RESPONSE, CLARIFY, HANDOFF, BROADCAST]"

definition validType :: "jsstring \<Rightarrow> msgType option" where
  \<comment> \<open>\<^verbatim>\<open>VALID_TYPES.includes(type)\<close>, with the member found\<close>
  "validType s = find (\<lambda>t. typeName t = s) VALID_TYPES"

definition VALID_STATUSES :: "jsstring list" where
  "VALID_STATUSES = [lit ''done'', lit ''partial'', lit ''failed'']"

definition VALID_PRIORITIES :: "jsstring list" where
  "VALID_PRIORITIES = [lit ''low'', lit ''normal'', lit ''high'']"

text \<open>
  The \<^verbatim>\<open>depth\<close> property of a message holds \<^verbatim>\<open>null\<close>, then the text of the
  Depth field, and at the end of \<^verbatim>\<open>parse\<close> an object \<^verbatim>\<open>{current, max}\<close>.
\<close>

datatype depthValue = DepthNull | DepthText jsstring | DepthObj jsnumber jsnumber

record message =
  m_type :: msgType
  m_to :: jsstring
  m_from :: "jsstring option"
  m_requestId :: "jsstring option"
  m_task :: "jsstring option"
  m_result :: "jsstring option"
  m_context :: "jsstring option"
  m_depth :: depthValue
  m_callback :: "jsstring option"
  m_priority :: "jsstring option"
  m_status :: "jsstring option"
  m_question :: "jsstring option"
  m_message :: "jsstring option"
  m_meta :: "jsstring \<rightharpoonup> jsstring"
  m_raw :: jsstring

fun codeBlockMatch :: "jsstring \<Rightarrow> jsstring option" where
  \<comment> \<open>the first match of the pattern: three backticks, one or more units that are not a
      backtick, three backticks. The run between is maximal, since a backtick must follow it.\<close>
  "codeBlockMatch [] = None"
| "codeBlockMatch (c # cs) =
     (let s = c # cs; body = takeWhile (\<lambda>x. x \<noteq> BACKTICK) (drop 3 s);
          rest = dropWhile (\<lambda>x. x \<noteq> BACKTICK) (drop 3 s)
      in if take 3 s = [BACKTICK, BACKTICK, BACKTICK] \<and> body \<noteq> [] \<and>
            take 3 rest = [BACKTICK, BACKTICK, BACKTICK]
         then Some body else codeBlockMatch cs)"

definition headerMatch :: "jsstring \<Rightarrow> (jsstring \<times> jsstring) option" where
  \<comment> \<open>the header pattern, anchored at both ends: an opening bracket, word units, white space,
      the arrow, white space, an at sign, units that are not white space, a closing bracket\<close>
  "headerMatch line =
     (case line of [] \<Rightarrow> None
      | b # r0 \<Rightarrow>
          if b \<noteq> 91 then None
          else let ty = takeWhile isWord r0 in
            if ty = [] then None
            else (case dropWhile isSpace (dropWhile isWord r0) of [] \<Rightarrow> None
              | a # r1 \<Rightarrow>
                  if a \<noteq> ARROW then None
                  else (case dropWhile isSpace r1 of [] \<Rightarrow> None
                    | at # r2 \<Rightarrow>
                        if at \<noteq> 64 then None
                        else if 2 \<le> length r2 \<and> list_all (\<lambda>c. \<not> isSpace c) r2 \<and> last r2 = 93
                        then Some (ty, butlast r2) else None)))"

definition kvMatch :: "jsstring \<Rightarrow> (jsstring \<times> jsstring) option" where
  \<comment> \<open>the field pattern: letters, a colon, white space, then the rest of the line, which
      must hold no line terminator (the dot does not match one, and the end is the end of
      the string)\<close>
  "kvMatch line =
     (let key = takeWhile isAlpha line in
      if key = [] then None
      else (case dropWhile isAlpha line of [] \<Rightarrow> None
        | c # r \<Rightarrow>
            if c \<noteq> 58 then None
            else let v = dropWhile isSpace r in
              if list_ex isLineTerminator v then None else Some (key, v)))"

definition knownFields :: "jsstring list" where
  "knownFields = [lit ''from'', lit ''requestid'', lit ''task'', lit ''result'', lit ''context'',
     lit ''depth'', lit ''callback'', lit ''priority'', lit ''status'', lit ''question'',
     lit ''message'']"

definition setProperty :: "message \<Rightarrow> jsstring \<Rightarrow> jsstring \<Rightarrow> message" where
  \<comment> \<open>\<^verbatim>\<open>result[normalizedKey] = cleanValue\<close> for a known field other than requestid\<close>
  "setProperty result k v =
     (if k = lit ''from'' then result\<lparr>m_from := Some v\<rparr>
      else if k = lit ''task'' then result\<lparr>m_task := Some v\<rparr>
      else if k = lit ''result'' then result\<lparr>m_result := Some v\<rparr>
      else if k = lit ''context'' then result\<lparr>m_context := Some v\<rparr>
      else if k = lit ''depth'' then result\<lparr>m_depth := DepthText v\<rparr>
      else if k = lit ''callback'' then result\<lparr>m_callback := Some v\<rparr>
      else if k = lit ''priority'' then result\<lparr>m_priority := Some v\<rparr>
      else if k = lit ''status'' then result\<lparr>m_status := Some v\<rparr>
      else if k = lit ''question'' then result\<lparr>m_question := Some v\<rparr>
      else if k = lit ''message'' then result\<lparr>m_message := Some v\<rparr>
      else result)"

definition normalizeKey :: "jsstring \<Rightarrow> jsstring" where
  \<comment> \<open>\<^verbatim>\<open>key.toLowerCase().replace(/[-_]/g, '')\<close>\<close>
  "normalizeKey key = filter (\<lambda>c. c \<noteq> 45 \<and> c \<noteq> 95) (toLowerCase key)"

definition saveField :: "message \<Rightarrow> jsstring \<Rightarrow> jsstring \<Rightarrow> message" where
  "saveField result key val =
     (let cleanValue = trim val;
          normalizedKey = normalizeKey key
      in if normalizedKey \<in> set knownFields then
           (let r1 = (if normalizedKey = lit ''requestid''
                      then result\<lparr>m_requestId := Some cleanValue\<rparr>
                      else setProperty result normalizedKey cleanValue);
                r2 = (if normalizedKey = lit ''status'' \<and> cleanValue \<notin> set VALID_STATUSES
                      then r1\<lparr>m_status := None\<rparr> else r1)
            in if normalizedKey = lit ''priority'' \<and> cleanValue \<notin> set VALID_PRIORITIES
               then r2\<lparr>m_priority := None\<rparr> else r2)
         else result\<lparr>m_meta := (m_meta result)(key \<mapsto> cleanValue)\<rparr>)"

definition saveCurrent :: "message \<Rightarrow> jsstring option \<Rightarrow> jsstring list \<Rightarrow> message" where
  \<comment> \<open>\<^verbatim>\<open>if (currentKey) saveField(result, currentKey, currentValue.join('\n'))\<close>\<close>
  "saveCurrent result currentKey currentValue =
     (case currentKey of None \<Rightarrow> result
      | Some k \<Rightarrow> if k = [] then result else saveField result k (joinNL currentValue))"

definition lineStep ::
  "message \<times> jsstring option \<times> jsstring list \<Rightarrow> jsstring \<Rightarrow>
   message \<times> jsstring option \<times> jsstring list" where
  \<comment> \<open>the body of the loop over the lines after the header\<close>
  "lineStep st line =
     (case st of (result, currentKey, currentValue) \<Rightarrow>
        (case kvMatch line of
           Some (key, v) \<Rightarrow>
             (saveCurrent result currentKey currentValue, Some (toLowerCase key), [v])
         | None \<Rightarrow>
             if truthy currentKey then (result, currentKey, currentValue @ [line])
             else (result, currentKey, currentValue)))"

definition depthMatch :: "jsstring \<Rightarrow> (jsstring \<times> jsstring) option" where
  \<comment> \<open>digits, a slash, digits, anchored at both ends\<close>
  "depthMatch s =
     (let a = takeWhile isDigit s in
      if a = [] then None
      else (case dropWhile isDigit s of [] \<Rightarrow> None
        | c # b \<Rightarrow> if c = 47 \<and> b \<noteq> [] \<and> list_all isDigit b then Some (a, b) else None))"

definition parseDepth :: "message \<Rightarrow> message" where
  \<comment> \<open>\<^verbatim>\<open>if (result.depth) { ... }\<close>: the empty text is falsy and stays\<close>
  "parseDepth result =
     (case m_depth result of
        DepthText s \<Rightarrow>
          if s = [] then result
          else (case depthMatch s of
                  Some (a, b) \<Rightarrow> result\<lparr>m_depth := DepthObj (parseInt a) (parseInt b)\<rparr>
                | None \<Rightarrow> result\<lparr>m_depth := DepthNull\<rparr>)
      | _ \<Rightarrow> result)"

definition blockLines :: "jsstring \<Rightarrow> jsstring list option" where
  \<comment> \<open>the lines of the trimmed content of the first code block\<close>
  "blockLines rawText =
     (if rawText = [] then None
      else (case codeBlockMatch rawText of None \<Rightarrow> None
        | Some body \<Rightarrow> Some (splitNL (trim body))))"

definition initialResult :: "msgType \<Rightarrow> jsstring \<Rightarrow> jsstring \<Rightarrow> message" where
  "initialResult ty to rawText =
     \<lparr>m_type = ty, m_to = to, m_from = None, m_requestId = None, m_task = None,
      m_result = None, m_context = None, m_depth = DepthNull, m_callback = None,
      m_priority = None, m_status = None, m_question = None, m_message = None,
      m_meta = Map.empty, m_raw = rawText\<rparr>"

definition parseFields :: "message \<Rightarrow> jsstring list \<Rightarrow> message" where
  \<comment> \<open>the loop over the lines after the header, and the save of the last field\<close>
  "parseFields result ls =
     (case foldl lineStep (result, None, []) ls of
        (r, currentKey, currentValue) \<Rightarrow> saveCurrent r currentKey currentValue)"

definition parse :: "jsstring \<Rightarrow> message option" where
  "parse rawText =
     (case blockLines rawText of None \<Rightarrow> None
      | Some lines \<Rightarrow>
         (case lines of [] \<Rightarrow> None
          | l0 # ls \<Rightarrow>
             (case headerMatch l0 of None \<Rightarrow> None
              | Some (tyname, to) \<Rightarrow>
                 (case validType tyname of None \<Rightarrow> None
                  | Some ty \<Rightarrow>
                     (let result = parseFields (initialResult ty to rawText) ls in
                      if \<not> truthy (m_from result) \<or> \<not> truthy (m_requestId result) then None
                      else let result = parseDepth result in
                        if ty = REQUEST \<and> \<not> truthy (m_task result) then None
                        else if ty = RESPONSE \<and> \<not> truthy (m_result result)
                                \<and> \<not> truthy (m_status result) then None
                        else if ty = CLARIFY \<and> \<not> truthy (m_question result) then None
                        else if ty = HANDOFF \<and> \<not> truthy (m_task result) then None
                        else if ty = BROADCAST \<and> \<not> truthy (m_message result) then None
                        else Some result)))))"

section \<open>Builder (lib/builder.js)\<close>

record depth =
  d_current :: nat
  d_max :: nat

text \<open>
  The argument of a builder: an object whose properties may be missing (\<open>None\<close>). The
  numbers of a depth are natural numbers, as the data model has them.
\<close>

record fields =
  f_to :: "jsstring option"
  f_from :: "jsstring option"
  f_requestId :: "jsstring option"
  f_task :: "jsstring option"
  f_context :: "jsstring option"
  f_depth :: "depth option"
  f_callback :: "jsstring option"
  f_priority :: "jsstring option"
  f_status :: "jsstring option"
  f_result :: "jsstring option"
  f_question :: "jsstring option"
  f_message :: "jsstring option"

datatype error =
    RequiredField msgType jsstring
  | DepthLimit nat nat msgType
  | StatusOrResult
  | TypeError

function numToString :: "nat \<Rightarrow> jsstring" where
  \<comment> \<open>a natural number in a template literal: its decimal digits (below \<open>10 ^ 21\<close>)\<close>
  "numToString n = (if n < 10 then [48 + n] else numToString (n div 10) @ [48 + n mod 10])"
  by pat_completeness auto
termination
  by (relation "measure id") auto

declare numToString.simps [simp del]

definition text_of :: "jsstring option \<Rightarrow> jsstring" where
  \<comment> \<open>a string-valued property in a template literal\<close>
  "text_of v = (case v of Some s \<Rightarrow> s | None \<Rightarrow> lit ''undefined'')"

definition errorMessage :: "error \<Rightarrow> jsstring" where
  "errorMessage e =
     (case e of
        RequiredField t k \<Rightarrow> typeName t @ lit '' requires field: '' @ k
      | DepthLimit c m t \<Rightarrow>
          lit ''Depth limit reached ('' @ numToString c @ lit ''/'' @ numToString m @
          lit ''). Cannot send '' @ typeName t @ lit ''. Must send RESPONSE instead.''
      | StatusOrResult \<Rightarrow> lit ''RESPONSE requires either status or result''
      | TypeError \<Rightarrow> lit ''Cannot read properties of undefined'')"
  \<comment> \<open>the first three are the messages of the builders; a \<^verbatim>\<open>TypeError\<close> is thrown by
      the runtime, in the state store\<close>

fun validateRequired :: "(jsstring \<times> jsstring option) list \<Rightarrow> msgType \<Rightarrow> error option" where
  \<comment> \<open>the entries in the order of the object literal; \<open>Some\<close> is the error thrown\<close>
  "validateRequired [] messageType = None"
| "validateRequired ((key, v) # rest) messageType =
     (if \<not> truthy v then Some (RequiredField messageType key)
      else validateRequired rest messageType)"

definition generateRequestId :: "jsstring \<Rightarrow> jsstring \<Rightarrow> jsstring" where
  \<comment> \<open>\<open>nano\<close> is what this call of \<^verbatim>\<open>nanoid()\<close> returns: six units of its alphabet\<close>
  "generateRequestId nano botname =
     (let cleanName = filter (\<lambda>c. (97 \<le> c \<and> c \<le> 122) \<or> (48 \<le> c \<and> c \<le> 57)) (toLowerCase botname)
      in cleanName @ lit ''-'' @ nano)"

definition defaultDepth :: "depth option \<Rightarrow> depth" where
  \<comment> \<open>\<^verbatim>\<open>depth || { current: 1, max: 5 }\<close>\<close>
  "defaultDepth d = (case d of Some x \<Rightarrow> x | None \<Rightarrow> \<lparr>d_current = 1, d_max = 5\<rparr>)"

definition buildRequest :: "jsstring \<Rightarrow> fields \<Rightarrow> error + jsstring" where
  "buildRequest nano f =
     (case validateRequired [(lit ''to'', f_to f), (lit ''from'', f_from f), (lit ''task'', f_task f)]
             REQUEST of
        Some e \<Rightarrow> Inl e
      | None \<Rightarrow>
         (let id = (if truthy (f_requestId f) then text_of (f_requestId f)
                    else generateRequestId nano (text_of (f_from f)));
              d = defaultDepth (f_depth f)
          in if d_current d = d_max d then Inl (DepthLimit (d_current d) (d_max d) REQUEST)
             else
              (let message = lit ''```'' @ [NL] @ lit ''[REQUEST '' @ [ARROW] @ lit '' @'' @
                             text_of (f_to f) @ lit '']'' @ [NL];
                   message = message @ lit ''From: '' @ text_of (f_from f) @ [NL];
                   message = message @ lit ''RequestId: '' @ id @ [NL];
                   message = message @ lit ''Task: '' @ text_of (f_task f) @ [NL];
                   message = (if truthy (f_context f)
                              then message @ lit ''Context: '' @ text_of (f_context f) @ [NL]
                              else message);
                   message = message @ lit ''Depth: '' @ numToString (d_current d) @ lit ''/'' @
                             numToString (d_max d) @ [NL];
                   message = (if truthy (f_callback f)
                              then message @ lit ''Callback: '' @ text_of (f_callback f) @ [NL]
                              else message);
                   message = (if truthy (f_priority f)
                              then message @ lit ''Priority: '' @ text_of (f_priority f) @ [NL]
                              else message);
                   message = message @ lit ''```''
               in Inr message)))"

definition buildResponse :: "fields \<Rightarrow> error + jsstring" where
  "buildResponse f =
     (case validateRequired
             [(lit ''to'', f_to f), (lit ''from'', f_from f), (lit ''requestId'', f_requestId f)]
             RESPONSE of
        Some e \<Rightarrow> Inl e
      | None \<Rightarrow>
         if \<not> truthy (f_status f) \<and> \<not> truthy (f_result f) then Inl StatusOrResult
         else
          (let d = defaultDepth (f_depth f);
               message = lit ''```'' @ [NL] @ lit ''[RESPONSE '' @ [ARROW] @ lit '' @'' @
                         text_of (f_to f) @ lit '']'' @ [NL];
               message = message @ lit ''From: '' @ text_of (f_from f) @ [NL];
               message = message @ lit ''RequestId: '' @ text_of (f_requestId f) @ [NL];
               message = (if truthy (f_status f)
                          then message @ lit ''Status: '' @ text_of (f_status f) @ [NL]
                          else message);
               message = (if truthy (f_result f)
                          then message @ lit ''Result: '' @ text_of (f_result f) @ [NL]
                          else message);
               message = (if truthy (f_context f)
                          then message @ lit ''Context: '' @ text_of (f_context f) @ [NL]
                          else message);
               message = message @ lit ''Depth: '' @ numToString (d_current d) @ lit ''/'' @
                         numToString (d_max d) @ [NL];
               message = message @ lit ''```''
           in Inr message))"

definition buildClarify :: "fields \<Rightarrow> error + jsstring" where
  "buildClarify f =
     (case validateRequired
             [(lit ''to'', f_to f), (lit ''from'', f_from f), (lit ''requestId'', f_requestId f),
              (lit ''question'', f_question f)]
             CLARIFY of
        Some e \<Rightarrow> Inl e
      | None \<Rightarrow>
         (let d = defaultDepth (f_depth f)
          in if d_current d = d_max d then Inl (DepthLimit (d_current d) (d_max d) CLARIFY)
             else
              (let message = lit ''```'' @ [NL] @ lit ''[CLARIFY '' @ [ARROW] @ lit '' @'' @
                             text_of (f_to f) @ lit '']'' @ [NL];
                   message = message @ lit ''From: '' @ text_of (f_from f) @ [NL];
                   message = message @ lit ''RequestId: '' @ text_of (f_requestId f) @ [NL];
                   message = message @ lit ''Question: '' @ text_of (f_question f) @ [NL];
                   message = message @ lit ''Depth: '' @ numToString (d_current d) @ lit ''/'' @
                             numToString (d_max d) @ [NL];
                   message = message @ lit ''```''
               in Inr message)))"

definition buildHandoff :: "fields \<Rightarrow> error + jsstring" where
  "buildHandoff f =
     (case validateRequired
             [(lit ''to'', f_to f), (lit ''from'', f_from f), (lit ''requestId'', f_requestId f),
              (lit ''task'', f_task f)]
             HANDOFF of
        Some e \<Rightarrow> Inl e
      | None \<Rightarrow>
         (let d = defaultDepth (f_depth f)
          in if d_current d = d_max d then Inl (DepthLimit (d_current d) (d_max d) HANDOFF)
             else
              (let message = lit ''```'' @ [NL] @ lit ''[HANDOFF '' @ [ARROW] @ lit '' @'' @
                             text_of (f_to f) @ lit '']'' @ [NL];
                   message = message @ lit ''From: '' @ text_of (f_from f) @ [NL];
                   message = message @ lit ''RequestId: '' @ text_of (f_requestId f) @ [NL];
                   message = message @ lit ''Task: '' @ text_of (f_task f) @ [NL];
                   message = (if truthy (f_context f)
                              then message @ lit ''Context: '' @ text_of (f_context f) @ [NL]
                              else message);
                   message = message @ lit ''Depth: '' @ numToString (d_current d) @ lit ''/'' @
                             numToString (d_max d) @ [NL];
                   message = (if truthy (f_callback f)
                              then message @ lit ''Callback: '' @ text_of (f_callback f) @ [NL]
                              else message);
                   message = (if truthy (f_priority f)
                              then message @ lit ''Priority: '' @ text_of (f_priority f) @ [NL]
                              else message);
                   message = message @ lit ''```''
               in Inr message)))"

definition buildBroadcast :: "jsstring \<Rightarrow> fields \<Rightarrow> error + jsstring" where
  "buildBroadcast nano f =
     (case validateRequired [(lit ''from'', f_from f), (lit ''message'', f_message f)] BROADCAST of
        Some e \<Rightarrow> Inl e
      | None \<Rightarrow>
         (let id = (if truthy (f_requestId f) then text_of (f_requestId f)
                    else generateRequestId nano (text_of (f_from f)));
              d = defaultDepth (f_depth f);
              msg = lit ''```'' @ [NL] @ lit ''[BROADCAST '' @ [ARROW] @ lit '' @all]'' @ [NL];
              msg = msg @ lit ''From: '' @ text_of (f_from f) @ [NL];
              msg = msg @ lit ''RequestId: '' @ id @ [NL];
              msg = msg @ lit ''Message: '' @ text_of (f_message f) @ [NL];
              msg = (if truthy (f_context f)
                     then msg @ lit ''Context: '' @ text_of (f_context f) @ [NL]
                     else msg);
              msg = msg @ lit ''Depth: '' @ numToString (d_current d) @ lit ''/'' @
                    numToString (d_max d) @ [NL];
              msg = msg @ lit ''```''
          in Inr msg))"

section \<open>State store (lib/state.js)\<close>

text \<open>
  The persisted state is one JSON object from request identifiers to conversation records.
  It is modelled as the list of its entries in the order of \<^verbatim>\<open>Object.entries\<close>; the
  state file is the state that each operation takes and returns. A time stamp is a number
  of milliseconds (the ISO text of a date and its time value determine each other), and
  the clock is an argument of each operation.
\<close>

datatype historyEntry =
    MessageEntry msgType "jsstring option" jsstring "jsstring option" int "jsstring option"
      \<comment> \<open>type, from, to, status, at, content\<close>
  | TimeoutEntry jsstring int
      \<comment> \<open>reason, at\<close>

text \<open>
  A record of the state file. Its \<^verbatim>\<open>depth\<close> is a number, or \<open>None\<close> for a property that
  is \<^verbatim>\<open>undefined\<close>, left out of the file, or \<^verbatim>\<open>null\<close>; no function of the store reads it.
\<close>

record conversation =
  c_type :: msgType
  c_to :: jsstring
  c_from :: "jsstring option"
  c_task :: "jsstring option"
  c_status :: jsstring
  c_depth :: "jsnumber option"
  c_createdAt :: int
  c_updatedAt :: int
  c_lastType :: "msgType option"
  c_history :: "historyEntry list"

type_synonym state = "(jsstring \<times> conversation) list"

definition DEFAULT_TIMEOUTS :: "msgType \<Rightarrow> int option" where
  "DEFAULT_TIMEOUTS t =
     (case t of CLARIFY \<Rightarrow> Some (10 * 60 * 1000) | REQUEST \<Rightarrow> Some (30 * 60 * 1000)
      | HANDOFF \<Rightarrow> Some (30 * 60 * 1000) | BROADCAST \<Rightarrow> Some (5 * 60 * 1000)
      | RESPONSE \<Rightarrow> None)"

definition objectPrototypeNames :: "jsstring list" where
  \<comment> \<open>the properties every object inherits: \<^verbatim>\<open>state[k]\<close> is truthy for them although
      the state has no entry \<open>k\<close>\<close>
  "objectPrototypeNames =
     [lit ''constructor'', lit ''__defineGetter__'', lit ''__defineSetter__'',
      lit ''hasOwnProperty'', lit ''__lookupGetter__'', lit ''__lookupSetter__'',
      lit ''isPrototypeOf'', lit ''propertyIsEnumerable'', lit ''toString'', lit ''valueOf'',
      lit ''__proto__'', lit ''toLocaleString'']"

definition isArrayIndex :: "jsstring \<Rightarrow> bool" where
  \<comment> \<open>a key that is the canonical decimal text of an integer below \<open>2 ^ 32 - 1\<close>\<close>
  "isArrayIndex k \<longleftrightarrow>
     k \<noteq> [] \<and> list_all isDigit k \<and> (k = [48] \<or> hd k \<noteq> 48) \<and>
     decimalValue k < 2 ^ 32 - 1"

definition insertEntry :: "state \<Rightarrow> jsstring \<Rightarrow> conversation \<Rightarrow> state" where
  \<comment> \<open>a new property: integer keys are enumerated first, in ascending order, then the
      other keys in the order of their creation\<close>
  "insertEntry st k v =
     (if isArrayIndex k
      then takeWhile (\<lambda>e. isArrayIndex (fst e) \<and> decimalValue (fst e) < decimalValue k) st @
           (k, v) #
           dropWhile (\<lambda>e. isArrayIndex (fst e) \<and> decimalValue (fst e) < decimalValue k) st
      else st @ [(k, v)])"

definition updateEntry :: "state \<Rightarrow> jsstring \<Rightarrow> conversation \<Rightarrow> state" where
  "updateEntry st k v = map (\<lambda>e. if fst e = k then (k, v) else e) st"

definition deleteEntry :: "state \<Rightarrow> jsstring \<Rightarrow> state" where
  "deleteEntry st k = filter (\<lambda>e. fst e \<noteq> k) st"

definition orElse :: "jsstring option \<Rightarrow> jsstring option \<Rightarrow> jsstring option" where
  \<comment> \<open>\<^verbatim>\<open>a || b\<close>\<close>
  "orElse a b = (if truthy a then a else b)"

definition keyOf :: "jsstring option \<Rightarrow> jsstring" where
  \<comment> \<open>a property of a parsed message used as a property key\<close>
  "keyOf v = (case v of Some s \<Rightarrow> s | None \<Rightarrow> lit ''null'')"

definition stored :: "conversation \<Rightarrow> conversation" where
  \<comment> \<open>the record as \<^verbatim>\<open>saveState\<close> writes it and \<^verbatim>\<open>loadState\<close> reads it back:
      \<^verbatim>\<open>JSON.stringify\<close> writes \<^verbatim>\<open>Infinity\<close> as \<^verbatim>\<open>null\<close>. Every other number and
      every text comes back as written, so only the record that \<open>track\<close> creates or
      updates can differ from what the file gives back.\<close>
  "stored conv = (if c_depth conv = Some PosInfinity then conv\<lparr>c_depth := None\<rparr> else conv)"

definition track :: "state \<Rightarrow> int \<Rightarrow> message \<Rightarrow> error + (state \<times> conversation)" where
  \<comment> \<open>the state file read, the time of the call and the message; the state file written
      and the record returned, which is the object in memory. For a \<open>requestId\<close> without an entry that names an inherited
      property, \<^verbatim>\<open>state[requestId]\<close> is truthy, the update branch runs on a value with
      no \<^verbatim>\<open>history\<close>, and the push throws before anything is saved.\<close>
  "track st now parsedMessage =
     (let requestId = keyOf (m_requestId parsedMessage);
          ty = m_type parsedMessage;
          entry = MessageEntry ty (m_from parsedMessage) (m_to parsedMessage)
                    (m_status parsedMessage) now
                    (orElse (orElse (orElse (m_task parsedMessage) (m_result parsedMessage))
                       (m_question parsedMessage)) (m_message parsedMessage))
      in case map_of st requestId of
           None \<Rightarrow>
             if requestId \<in> set objectPrototypeNames then Inl TypeError
             else
              (let conv =
                 \<lparr>c_type = ty, c_to = m_to parsedMessage, c_from = m_from parsedMessage,
                  c_task = orElse (orElse (m_task parsedMessage) (m_question parsedMessage))
                             (m_message parsedMessage),
                  c_status = (if ty = RESPONSE
                              then (if truthy (m_status parsedMessage)
                                    then text_of (m_status parsedMessage) else lit ''done'')
                              else lit ''open''),
                  c_depth = (case m_depth parsedMessage of
                               DepthObj c m \<Rightarrow> Some c
                             | DepthText s \<Rightarrow> if s = [] then Some (Exact 1) else None
                             | DepthNull \<Rightarrow> Some (Exact 1)),
                  c_createdAt = now, c_updatedAt = now, c_lastType = Some ty, c_history = []\<rparr>;
                   conv = conv\<lparr>c_history := c_history conv @ [entry]\<rparr>
               in Inr (insertEntry st requestId (stored conv), conv))
         | Some conv \<Rightarrow>
            (let conv = (if ty = RESPONSE
                         then conv\<lparr>c_status := (if truthy (m_status parsedMessage)
                                                 then text_of (m_status parsedMessage)
                                                 else lit ''done'')\<rparr>
                         else if ty = CLARIFY then conv\<lparr>c_status := lit ''clarifying''\<rparr>
                         else conv);
                 conv = conv\<lparr>c_updatedAt := now\<rparr>;
                 conv = conv\<lparr>c_lastType := Some ty\<rparr>;
                 conv = conv\<lparr>c_history := c_history conv @ [entry]\<rparr>
             in Inr (updateEntry st requestId (stored conv), conv)))"

definition timeout ::
  "state \<Rightarrow> int \<Rightarrow> jsstring \<Rightarrow> jsstring \<Rightarrow> error + (state \<times> conversation option)" where
  \<comment> \<open>the second component is the record returned, \<open>None\<close> for \<^verbatim>\<open>null\<close>\<close>
  "timeout st now requestId reason =
     (case map_of st requestId of
        Some conv \<Rightarrow>
          (let conv = conv\<lparr>c_status := lit ''timeout''\<rparr>;
               conv = conv\<lparr>c_updatedAt := now\<rparr>;
               conv = conv\<lparr>c_history := c_history conv @ [TimeoutEntry reason now]\<rparr>
           in Inr (updateEntry st requestId conv, Some conv))
      | None \<Rightarrow>
          if requestId \<in> set objectPrototypeNames then Inl TypeError else Inr (st, None))"

fun cleanupLoop :: "state \<Rightarrow> int \<Rightarrow> int \<Rightarrow> state \<Rightarrow> nat \<Rightarrow> state \<times> nat" where
  \<comment> \<open>the loop over the entries read at the start; the state and the count are updated\<close>
  "cleanupLoop [] now olderThanMs st removed = (st, removed)"
| "cleanupLoop ((requestId, conv) # es) now olderThanMs st removed =
     (let updatedAt = c_updatedAt conv; age = now - updatedAt
      in if age > olderThanMs \<and>
            c_status conv \<in> set [lit ''done'', lit ''failed'', lit ''timeout'']
         then cleanupLoop es now olderThanMs (deleteEntry st requestId) (removed + 1)
         else cleanupLoop es now olderThanMs st removed)"

definition cleanup :: "state \<Rightarrow> int \<Rightarrow> int option \<Rightarrow> state \<times> nat" where
  \<comment> \<open>the state file afterwards (written only when something was removed) and the count\<close>
  "cleanup st now olderThan =
     (let olderThanMs = (case olderThan of Some x \<Rightarrow> x | None \<Rightarrow> 24 * 60 * 60 * 1000)
      in case cleanupLoop st now olderThanMs st 0 of
           (st', removed) \<Rightarrow> (if removed > 0 then st' else st, removed))"

fun checkLoop :: "state \<Rightarrow> int \<Rightarrow> state \<Rightarrow> jsstring list \<Rightarrow> error + (state \<times> jsstring list)" where
  \<comment> \<open>the loop over the entries read at the start; each \<^verbatim>\<open>timeout()\<close> reads and writes
      the state file, which is the third argument. The clock is read once for the sweep:
      the time stamps that \<^verbatim>\<open>timeout()\<close> writes are those of its start.\<close>
  "checkLoop [] now store timedOut = Inr (store, timedOut)"
| "checkLoop ((requestId, conv) # es) now store timedOut =
     (if c_status conv \<noteq> lit ''open'' \<and> c_status conv \<noteq> lit ''clarifying''
      then checkLoop es now store timedOut
      else
       (let updatedAt = c_updatedAt conv;
            messageType = (case c_lastType conv of Some t \<Rightarrow> t | None \<Rightarrow> c_type conv);
            timeoutMs = (case DEFAULT_TIMEOUTS messageType of Some ms \<Rightarrow> ms
                         | None \<Rightarrow> the (DEFAULT_TIMEOUTS REQUEST));
            age = now - updatedAt
        in if age > timeoutMs
           then (case timeout store now requestId
                        (lit ''No response after '' @ numToString (nat (age div 1000 div 60)) @
                         lit '' minutes'') of
                   Inl e \<Rightarrow> Inl e
                 | Inr (store', r) \<Rightarrow> checkLoop es now store' (timedOut @ [requestId]))
           else checkLoop es now store timedOut))"

definition checkTimeouts :: "state \<Rightarrow> int \<Rightarrow> error + (state \<times> jsstring list)" where
  "checkTimeouts st now = checkLoop st now st []"

section \<open>Wire format\<close>

text \<open>
  The text that the builders emit, as a list of lines between two fences, and what makes a
  field value pass through it unchanged. These notions state the properties below; the
  builders themselves are the definitions above.
\<close>

definition headerLine :: "msgType \<Rightarrow> jsstring \<Rightarrow> jsstring" where
  "headerLine t to = [91] @ typeName t @ [32, ARROW, 32, 64] @ to @ [93]"

definition fieldLine :: "string \<Rightarrow> jsstring \<Rightarrow> jsstring" where
  "fieldLine k v = lit k @ [58, 32] @ v"

definition optLine :: "string \<Rightarrow> jsstring option \<Rightarrow> jsstring list" where
  "optLine k v = (if truthy v then [fieldLine k (text_of v)] else [])"

definition optField :: "string \<Rightarrow> jsstring option \<Rightarrow> (string \<times> jsstring) list" where
  \<comment> \<open>the key and value of an optional line\<close>
  "optField k v = (if truthy v then [(k, text_of v)] else [])"

definition depthText :: "depth \<Rightarrow> jsstring" where
  "depthText d = numToString (d_current d) @ [47] @ numToString (d_max d)"

definition wire :: "jsstring list \<Rightarrow> jsstring" where
  "wire ls = lit ''```'' @ [NL] @ concat (map (\<lambda>l. l @ [NL]) ls) @ lit ''```''"

definition requestIdOf :: "jsstring \<Rightarrow> fields \<Rightarrow> jsstring" where
  "requestIdOf nano f =
     (if truthy (f_requestId f) then text_of (f_requestId f)
      else generateRequestId nano (text_of (f_from f)))"

definition wireSafe :: "jsstring \<Rightarrow> bool" where
  \<comment> \<open>a value that a field line and the lines after it carry unchanged: not empty, no
      white space at either end, no backtick, no line terminator on its first line, and
      no later line that is itself a field line\<close>
  "wireSafe v \<longleftrightarrow>
     v \<noteq> [] \<and> \<not> isSpace (hd v) \<and> \<not> isSpace (last v) \<and> BACKTICK \<notin> set v \<and>
     \<not> list_ex isLineTerminator (hd (splitNL v)) \<and>
     list_all (\<lambda>l. kvMatch l = None) (tl (splitNL v))"

definition safeText :: "jsstring option \<Rightarrow> bool" where
  \<comment> \<open>a property that is missing or empty (and so not emitted), or wire-safe\<close>
  "safeText v \<longleftrightarrow> \<not> truthy v \<or> wireSafe (text_of v)"

definition nanoidOutput :: "jsstring \<Rightarrow> bool" where
  \<comment> \<open>what \<^verbatim>\<open>nanoid()\<close> returns: six units of the alphabet \<^verbatim>\<open>0-9a-z\<close>\<close>
  "nanoidOutput nano \<longleftrightarrow>
     length nano = 6 \<and> list_all (\<lambda>c. (97 \<le> c \<and> c \<le> 122) \<or> (48 \<le> c \<and> c \<le> 57)) nano"

definition saveAll :: "message \<Rightarrow> (string \<times> jsstring) list \<Rightarrow> message" where
  \<comment> \<open>the fields saved one after the other, each under its lower-cased key\<close>
  "saveAll r kvs = foldl (\<lambda>r kv. saveField r (toLowerCase (lit (fst kv))) (snd kv)) r kvs"

section \<open>Notions for the properties of the parser and of the state store\<close>

definition depthIsText :: "message \<Rightarrow> bool" where
  \<comment> \<open>while the fields are read, the depth is null or a text, not yet an object\<close>
  "depthIsText r \<longleftrightarrow> (case m_depth r of DepthObj c m \<Rightarrow> False | _ \<Rightarrow> True)"

definition depthWritten :: "jsstring \<Rightarrow> jsstring \<Rightarrow> jsstring \<Rightarrow> bool" where
  \<comment> \<open>the text is a run of digits, a slash and a run of digits\<close>
  "depthWritten s a b \<longleftrightarrow>
     s = a @ [47] @ b \<and> a \<noteq> [] \<and> b \<noteq> [] \<and> list_all isDigit a \<and> list_all isDigit b"

definition isDepthKey :: "jsstring \<Rightarrow> bool" where
  \<comment> \<open>the key of a field line that \<open>saveField\<close> stores as the depth: \<^verbatim>\<open>Depth\<close> in any casing\<close>
  "isDepthKey key \<longleftrightarrow> toLowerCase key = lit ''depth''"

definition statusValid :: "message \<Rightarrow> bool" where
  \<comment> \<open>the status is null or one of \<open>VALID_STATUSES\<close>\<close>
  "statusValid r \<longleftrightarrow> (case m_status r of None \<Rightarrow> True | Some s \<Rightarrow> s \<in> set VALID_STATUSES)"

definition isLowerKey :: "jsstring \<Rightarrow> bool" where
  \<comment> \<open>lower-case ASCII letters only\<close>
  "isLowerKey k \<longleftrightarrow> list_all (\<lambda>c. 97 \<le> c \<and> c \<le> 122) k"

definition removable :: "int \<Rightarrow> int \<Rightarrow> conversation \<Rightarrow> bool" where
  \<comment> \<open>what \<open>cleanup\<close> removes: older than the threshold and done, failed or timed out\<close>
  "removable now olderThanMs conv \<longleftrightarrow>
     now - c_updatedAt conv > olderThanMs \<and>
     (c_status conv = lit ''done'' \<or> c_status conv = lit ''failed'' \<or>
      c_status conv = lit ''timeout'')"

definition specWindow :: "msgType \<Rightarrow> int" where
  \<comment> \<open>the table of C4, in milliseconds; RESPONSE is the only type the table does not name\<close>
  "specWindow t =
     (case t of CLARIFY \<Rightarrow> 10 | REQUEST \<Rightarrow> 30 | HANDOFF \<Rightarrow> 30 | BROADCAST \<Rightarrow> 5
      | RESPONSE \<Rightarrow> 30) * 60 * 1000"

definition overdue :: "int \<Rightarrow> conversation \<Rightarrow> bool" where
  \<comment> \<open>C4: open or clarifying, and older than the window of the latest message type (of
      the first type, for a record written without \<open>lastType\<close>)\<close>
  "overdue now conv \<longleftrightarrow>
     (c_status conv = lit ''open'' \<or> c_status conv = lit ''clarifying'') \<and>
     now - c_updatedAt conv >
       specWindow (case c_lastType conv of Some t \<Rightarrow> t | None \<Rightarrow> c_type conv)"

definition swept :: "int \<Rightarrow> conversation \<Rightarrow> conversation" where
  \<comment> \<open>the record after \<open>timeout\<close>, called by the sweep\<close>
  "swept now conv =
     conv\<lparr>c_status := lit ''timeout'', c_updatedAt := now,
          c_history := c_history conv @
            [TimeoutEntry (lit ''No response after '' @
               numToString (nat ((now - c_updatedAt conv) div 1000 div 60)) @
               lit '' minutes'') now]\<rparr>"

fun trackAll :: "state \<Rightarrow> (int \<times> message) list \<Rightarrow> error + state" where
  \<comment> \<open>a sequence of \<open>track\<close> calls, each with the time of the call; it ends at the first
      call that throws\<close>
  "trackAll st [] = Inr st"
| "trackAll st ((now, m) # rest) =
     (case track st now m of Inl e \<Rightarrow> Inl e | Inr (st', conv) \<Rightarrow> trackAll st' rest)"

section \<open>Sample inputs\<close>

definition sampleFields :: "nat \<Rightarrow> nat \<Rightarrow> fields" where
  "sampleFields c m =
     \<lparr>f_to = Some (lit ''Mantis''), f_from = Some (lit ''Lotbot''),
      f_requestId = Some (lit ''lotbot-abc123''), f_task = Some (lit ''Check CLI version''),
      f_context = None, f_depth = Some \<lparr>d_current = c, d_max = m\<rparr>, f_callback = None,
      f_priority = Some (lit ''normal''), f_status = Some (lit ''done''),
      f_result = Some (lit ''CLI is up to date''), f_question = Some (lit ''Which version?''),
      f_message = Some (lit ''Going offline'')\<rparr>"

definition multilineTask :: jsstring where
  "multilineTask = lit ''Do these things:'' @ [NL] @ lit ''1. Check version'' @ [NL] @
     lit ''2. Report status'' @ [NL] @ lit ''3. Clean up''"

definition multilineFields :: fields where
  "multilineFields =
     \<lparr>f_to = Some (lit ''Mantis''), f_from = Some (lit ''Lotbot''),
      f_requestId = Some (lit ''lotbot-abc123''), f_task = Some multilineTask,
      f_context = None, f_depth = Some \<lparr>d_current = 1, d_max = 5\<rparr>, f_callback = None,
      f_priority = None, f_status = None, f_result = None, f_question = None,
      f_message = None\<rparr>"

definition tickFields :: fields where
  "tickFields =
     \<lparr>f_to = Some (lit ''Mantis''), f_from = Some (lit ''Lotbot''),
      f_requestId = Some (lit ''lotbot-abc123''), f_task = Some (lit ''run `ls`''),
      f_context = None, f_depth = Some \<lparr>d_current = 1, d_max = 5\<rparr>, f_callback = None,
      f_priority = None, f_status = None, f_result = None, f_question = None,
      f_message = None\<rparr>"

definition tickWire :: jsstring where
  "tickWire = lit ''```'' @ [NL] @ lit ''[REQUEST '' @ [ARROW] @ lit '' @Mantis]'' @ [NL] @
     lit ''From: Lotbot'' @ [NL] @ lit ''RequestId: lotbot-abc123'' @ [NL] @
     lit ''Task: run `ls`'' @ [NL] @ lit ''Depth: 1/5'' @ [NL] @ lit ''```''"

definition sampleWire :: jsstring where
  "sampleWire = lit ''```'' @ [NL] @ lit ''[REQUEST '' @ [ARROW] @ lit '' @Mantis]'' @ [NL] @
     lit ''From: Lotbot'' @ [NL] @ lit ''RequestId: lotbot-abc123'' @ [NL] @
     lit ''Task: Check the weather in Paris'' @ [NL] @ lit ''Depth: 1/5'' @ [NL] @ lit ''```''"

definition sampleMessage :: message where
  "sampleMessage =
     \<lparr>m_type = REQUEST, m_to = lit ''Mantis'', m_from = Some (lit ''Lotbot''),
      m_requestId = Some (lit ''lotbot-abc123''),
      m_task = Some (lit ''Check the weather in Paris''), m_result = None, m_context = None,
      m_depth = DepthObj (Exact 1) (Exact 5), m_callback = None, m_priority = None,
      m_status = None,
      m_question = None, m_message = None, m_meta = Map.empty, m_raw = sampleWire\<rparr>"

definition overLimitWire :: jsstring where
  "overLimitWire = lit ''```'' @ [NL] @ lit ''[REQUEST '' @ [ARROW] @ lit '' @Mantis]'' @ [NL] @
     lit ''From: Lotbot'' @ [NL] @ lit ''RequestId: lotbot-abc123'' @ [NL] @
     lit ''Task: Check the weather in Paris'' @ [NL] @ lit ''Depth: 7/5'' @ [NL] @ lit ''```''"

definition malformedDepthWire :: jsstring where
  "malformedDepthWire =
     lit ''```'' @ [NL] @ lit ''[REQUEST '' @ [ARROW] @ lit '' @Mantis]'' @ [NL] @
     lit ''From: Lotbot'' @ [NL] @ lit ''RequestId: lotbot-abc123'' @ [NL] @
     lit ''Task: Check the weather in Paris'' @ [NL] @ lit ''Depth: 1 of 5'' @ [NL] @ lit ''```''"

definition malformedDepthMessage :: message where
  "malformedDepthMessage =
     \<lparr>m_type = REQUEST, m_to = lit ''Mantis'', m_from = Some (lit ''Lotbot''),
      m_requestId = Some (lit ''lotbot-abc123''),
      m_task = Some (lit ''Check the weather in Paris''), m_result = None, m_context = None,
      m_depth = DepthNull, m_callback = None, m_priority = None, m_status = None,
      m_question = None, m_message = None, m_meta = Map.empty, m_raw = malformedDepthWire\<rparr>"

definition noDepthWire :: jsstring where
  "noDepthWire =
     lit ''```'' @ [NL] @ lit ''[REQUEST '' @ [ARROW] @ lit '' @Mantis]'' @ [NL] @
     lit ''From: Lotbot'' @ [NL] @ lit ''RequestId: lotbot-abc123'' @ [NL] @
     lit ''Task: Check the weather in Paris'' @ [NL] @ lit ''```''"

definition noDepthMessage :: message where
  "noDepthMessage =
     \<lparr>m_type = REQUEST, m_to = lit ''Mantis'', m_from = Some (lit ''Lotbot''),
      m_requestId = Some (lit ''lotbot-abc123''),
      m_task = Some (lit ''Check the weather in Paris''), m_result = None, m_context = None,
      m_depth = DepthNull, m_callback = None, m_priority = None, m_status = None,
      m_question = None, m_message = None, m_meta = Map.empty, m_raw = noDepthWire\<rparr>"

definition featureWire :: jsstring where
  "featureWire = lit ''```'' @ [NL] @ lit ''[REQUEST '' @ [ARROW] @ lit '' @Mantis]'' @ [NL] @
     lit ''From: Lotbot'' @ [NL] @ lit ''RequestId: lotbot-abc123'' @ [NL] @
     lit ''Task: Check the weather in Paris'' @ [NL] @ lit ''Depth: 1/5'' @ [NL] @
     lit ''XFeature: v'' @ [NL] @ lit ''```''"

definition featureMessage :: message where
  "featureMessage =
     \<lparr>m_type = REQUEST, m_to = lit ''Mantis'', m_from = Some (lit ''Lotbot''),
      m_requestId = Some (lit ''lotbot-abc123''),
      m_task = Some (lit ''Check the weather in Paris''), m_result = None, m_context = None,
      m_depth = DepthObj (Exact 1) (Exact 5), m_callback = None, m_priority = None,
      m_status = None,
      m_question = None, m_message = None, m_meta = [lit ''xfeature'' \<mapsto> lit ''v''],
      m_raw = featureWire\<rparr>"

definition clarifyWire :: jsstring where
  "clarifyWire = lit ''```'' @ [NL] @ lit ''[CLARIFY '' @ [ARROW] @ lit '' @Lotbot]'' @ [NL] @
     lit ''From: Mantis'' @ [NL] @ lit ''RequestId: lotbot-abc123'' @ [NL] @
     lit ''Question: Which city?'' @ [NL] @ lit ''Depth: 2/5'' @ [NL] @ lit ''```''"

definition clarifyMessage :: message where
  "clarifyMessage =
     \<lparr>m_type = CLARIFY, m_to = lit ''Lotbot'', m_from = Some (lit ''Mantis''),
      m_requestId = Some (lit ''lotbot-abc123''), m_task = None, m_result = None,
      m_context = None, m_depth = DepthObj (Exact 2) (Exact 5), m_callback = None,
      m_priority = None,
      m_status = None, m_question = Some (lit ''Which city?''), m_message = None,
      m_meta = Map.empty, m_raw = clarifyWire\<rparr>"

definition trackedOnce :: conversation where
  \<open>trackedOnce =
     \<lparr>c_type = REQUEST, c_to = lit ''Mantis'', c_from = Some (lit ''Lotbot''),
      c_task = Some (lit ''Check the weather in Paris''), c_status = lit ''open'',
      c_depth = Some (Exact 1), c_createdAt = 1000, c_updatedAt = 1000,
      c_lastType = Some REQUEST,
      c_history = [MessageEntry REQUEST (Some (lit ''Lotbot'')) (lit ''Mantis'') None 1000
                     (Some (lit ''Check the weather in Paris''))]\<rparr>\<close>

definition trackedTwice :: conversation where
  \<open>trackedTwice =
     \<lparr>c_type = REQUEST, c_to = lit ''Mantis'', c_from = Some (lit ''Lotbot''),
      c_task = Some (lit ''Check the weather in Paris''), c_status = lit ''clarifying'',
      c_depth = Some (Exact 1), c_createdAt = 1000, c_updatedAt = 2000,
      c_lastType = Some CLARIFY,
      c_history = [MessageEntry REQUEST (Some (lit ''Lotbot'')) (lit ''Mantis'') None 1000
                     (Some (lit ''Check the weather in Paris'')),
                   MessageEntry CLARIFY (Some (lit ''Mantis'')) (lit ''Lotbot'') None 2000
                     (Some (lit ''Which city?''))]\<rparr>\<close>

definition sampleConversation :: "jsstring \<Rightarrow> int \<Rightarrow> msgType \<Rightarrow> conversation" where
  "sampleConversation status updatedAt lastType =
     \<lparr>c_type = REQUEST, c_to = lit ''Mantis'', c_from = Some (lit ''Lotbot''),
      c_task = Some (lit ''Check the weather in Paris''), c_status = status,
      c_depth = Some (Exact 1), c_createdAt = 0, c_updatedAt = updatedAt,
      c_lastType = Some lastType,
      c_history = []\<rparr>"

definition sweptState :: state where
  \<comment> \<open>a state after a sweep: it holds a timed-out record\<close>
  "sweptState = [(lit ''r9'', sampleConversation (lit ''timeout'') 1000 REQUEST)]"

definition sampleState :: state where
  "sampleState =
     [(lit ''r1'', sampleConversation (lit ''done'') 1000 RESPONSE),
      (lit ''r2'', sampleConversation (lit ''open'') 1000 REQUEST),
      (lit ''r3'', sampleConversation (lit ''partial'') 1000 RESPONSE),
      (lit ''r4'', sampleConversation (lit ''clarifying'') 1000 CLARIFY)]"

section \<open>The depth guard of the builders\<close>

lemma validateRequired_ok:
  "list_all (\<lambda>e. truthy (snd e)) es \<Longrightarrow> validateRequired es t = None"
  by (induction es t rule: validateRequired.induct) auto

lemma validateRequired_error:
  "validateRequired es t = Some e \<Longrightarrow> \<exists>k. e = RequiredField t k"
  by (induction es t rule: validateRequired.induct) (auto split: if_splits)

text \<open>
  C2. With its required fields present, each of \<open>buildRequest\<close>, \<open>buildHandoff\<close> and
  \<open>buildClarify\<close> fails with the depth-limit error naming its own message type when
  \<open>depth.current = depth.max\<close>, and returns a message when \<open>depth.current < depth.max\<close>.
  \<open>buildResponse\<close> and \<open>buildBroadcast\<close> return a message with their required fields
  present whatever the depth is, and never fail with the depth-limit error.
\<close>

theorem depth_guard:
  "(truthy (f_to f) \<and> truthy (f_from f) \<and> truthy (f_task f) \<and> f_depth f = Some d \<longrightarrow>
      (d_current d = d_max d \<longrightarrow>
         buildRequest nano f = Inl (DepthLimit (d_current d) (d_max d) REQUEST)) \<and>
      (d_current d < d_max d \<longrightarrow> (\<exists>s. buildRequest nano f = Inr s))) \<and>
   (truthy (f_to f) \<and> truthy (f_from f) \<and> truthy (f_requestId f) \<and> truthy (f_task f) \<and>
    f_depth f = Some d \<longrightarrow>
      (d_current d = d_max d \<longrightarrow>
         buildHandoff f = Inl (DepthLimit (d_current d) (d_max d) HANDOFF)) \<and>
      (d_current d < d_max d \<longrightarrow> (\<exists>s. buildHandoff f = Inr s))) \<and>
   (truthy (f_to f) \<and> truthy (f_from f) \<and> truthy (f_requestId f) \<and> truthy (f_question f) \<and>
    f_depth f = Some d \<longrightarrow>
      (d_current d = d_max d \<longrightarrow>
         buildClarify f = Inl (DepthLimit (d_current d) (d_max d) CLARIFY)) \<and>
      (d_current d < d_max d \<longrightarrow> (\<exists>s. buildClarify f = Inr s))) \<and>
   (\<forall>t. errorMessage (DepthLimit (d_current d) (d_max d) t) =
      lit ''Depth limit reached ('' @ numToString (d_current d) @ lit ''/'' @
      numToString (d_max d) @ lit ''). Cannot send '' @ typeName t @
      lit ''. Must send RESPONSE instead.'') \<and>
   (truthy (f_to f) \<and> truthy (f_from f) \<and> truthy (f_requestId f) \<and>
    (truthy (f_status f) \<or> truthy (f_result f)) \<longrightarrow> (\<exists>s. buildResponse f = Inr s)) \<and>
   (truthy (f_from f) \<and> truthy (f_message f) \<longrightarrow> (\<exists>s. buildBroadcast nano f = Inr s)) \<and>
   (\<forall>c m t. buildResponse f \<noteq> Inl (DepthLimit c m t) \<and>
            buildBroadcast nano f \<noteq> Inl (DepthLimit c m t))"
proof -
  have req: "truthy (f_to f) \<and> truthy (f_from f) \<and> truthy (f_task f) \<and> f_depth f = Some d \<longrightarrow>
      (d_current d = d_max d \<longrightarrow>
         buildRequest nano f = Inl (DepthLimit (d_current d) (d_max d) REQUEST)) \<and>
      (d_current d < d_max d \<longrightarrow> (\<exists>s. buildRequest nano f = Inr s))"
    by (simp add: buildRequest_def validateRequired_ok defaultDepth_def Let_def)
  have hand: "truthy (f_to f) \<and> truthy (f_from f) \<and> truthy (f_requestId f) \<and> truthy (f_task f) \<and>
    f_depth f = Some d \<longrightarrow>
      (d_current d = d_max d \<longrightarrow>
         buildHandoff f = Inl (DepthLimit (d_current d) (d_max d) HANDOFF)) \<and>
      (d_current d < d_max d \<longrightarrow> (\<exists>s. buildHandoff f = Inr s))"
    by (simp add: buildHandoff_def validateRequired_ok defaultDepth_def Let_def)
  have clar: "truthy (f_to f) \<and> truthy (f_from f) \<and> truthy (f_requestId f) \<and>
    truthy (f_question f) \<and> f_depth f = Some d \<longrightarrow>
      (d_current d = d_max d \<longrightarrow>
         buildClarify f = Inl (DepthLimit (d_current d) (d_max d) CLARIFY)) \<and>
      (d_current d < d_max d \<longrightarrow> (\<exists>s. buildClarify f = Inr s))"
    by (simp add: buildClarify_def validateRequired_ok defaultDepth_def Let_def)
  have msg: "\<forall>t. errorMessage (DepthLimit (d_current d) (d_max d) t) =
      lit ''Depth limit reached ('' @ numToString (d_current d) @ lit ''/'' @
      numToString (d_max d) @ lit ''). Cannot send '' @ typeName t @
      lit ''. Must send RESPONSE instead.''"
    by (simp add: errorMessage_def)
  have resp: "truthy (f_to f) \<and> truthy (f_from f) \<and> truthy (f_requestId f) \<and>
    (truthy (f_status f) \<or> truthy (f_result f)) \<longrightarrow> (\<exists>s. buildResponse f = Inr s)"
    by (auto simp add: buildResponse_def validateRequired_ok Let_def)
  have bc: "truthy (f_from f) \<and> truthy (f_message f) \<longrightarrow> (\<exists>s. buildBroadcast nano f = Inr s)"
    by (simp add: buildBroadcast_def validateRequired_ok Let_def)
  have never: "\<forall>c m t. buildResponse f \<noteq> Inl (DepthLimit c m t) \<and>
            buildBroadcast nano f \<noteq> Inl (DepthLimit c m t)"
    by (auto simp add: buildResponse_def buildBroadcast_def Let_def
        split: option.splits if_splits dest: validateRequired_error)
  from req hand clar msg resp bc never show ?thesis by blast
qed

theorem depth_guard_witness:
  "buildRequest (lit ''abc123'') (sampleFields 5 5) = Inl (DepthLimit 5 5 REQUEST) \<and>
   buildHandoff (sampleFields 5 5) = Inl (DepthLimit 5 5 HANDOFF) \<and>
   buildClarify (sampleFields 5 5) = Inl (DepthLimit 5 5 CLARIFY) \<and>
   (\<exists>s. buildRequest (lit ''abc123'') (sampleFields 1 5) = Inr s) \<and>
   (\<exists>s. buildHandoff (sampleFields 1 5) = Inr s) \<and>
   (\<exists>s. buildClarify (sampleFields 1 5) = Inr s) \<and>
   (\<exists>s. buildResponse (sampleFields 5 5) = Inr s) \<and>
   (\<exists>s. buildBroadcast (lit ''abc123'') (sampleFields 5 5) = Inr s)"
  using depth_guard [of "sampleFields 5 5" "\<lparr>d_current = 5, d_max = 5\<rparr>" "lit ''abc123''"]
    depth_guard [of "sampleFields 1 5" "\<lparr>d_current = 1, d_max = 5\<rparr>" "lit ''abc123''"]
  by (simp add: sampleFields_def truthy_def lit_def)

section \<open>The shape of what the builders emit\<close>

lemma buildRequest_wire:
  assumes "truthy (f_to f)" "truthy (f_from f)" "truthy (f_task f)"
    "d_current (defaultDepth (f_depth f)) \<noteq> d_max (defaultDepth (f_depth f))"
  shows "buildRequest nano f =
    Inr (wire ([headerLine REQUEST (text_of (f_to f)), fieldLine ''From'' (text_of (f_from f)),
                fieldLine ''RequestId'' (requestIdOf nano f), fieldLine ''Task'' (text_of (f_task f))] @
               optLine ''Context'' (f_context f) @
               [fieldLine ''Depth'' (depthText (defaultDepth (f_depth f)))] @
               optLine ''Callback'' (f_callback f) @ optLine ''Priority'' (f_priority f)))"
  using assms
  by (simp add: buildRequest_def validateRequired_ok Let_def wire_def headerLine_def
      fieldLine_def optLine_def depthText_def requestIdOf_def typeName_def lit_def)

lemma buildHandoff_wire:
  assumes "truthy (f_to f)" "truthy (f_from f)" "truthy (f_requestId f)" "truthy (f_task f)"
    "d_current (defaultDepth (f_depth f)) \<noteq> d_max (defaultDepth (f_depth f))"
  shows "buildHandoff f =
    Inr (wire ([headerLine HANDOFF (text_of (f_to f)), fieldLine ''From'' (text_of (f_from f)),
                fieldLine ''RequestId'' (text_of (f_requestId f)), fieldLine ''Task'' (text_of (f_task f))] @
               optLine ''Context'' (f_context f) @
               [fieldLine ''Depth'' (depthText (defaultDepth (f_depth f)))] @
               optLine ''Callback'' (f_callback f) @ optLine ''Priority'' (f_priority f)))"
  using assms
  by (simp add: buildHandoff_def validateRequired_ok Let_def wire_def headerLine_def
      fieldLine_def optLine_def depthText_def typeName_def lit_def)

lemma buildClarify_wire:
  assumes "truthy (f_to f)" "truthy (f_from f)" "truthy (f_requestId f)" "truthy (f_question f)"
    "d_current (defaultDepth (f_depth f)) \<noteq> d_max (defaultDepth (f_depth f))"
  shows "buildClarify f =
    Inr (wire ([headerLine CLARIFY (text_of (f_to f)), fieldLine ''From'' (text_of (f_from f)),
                fieldLine ''RequestId'' (text_of (f_requestId f)),
                fieldLine ''Question'' (text_of (f_question f)),
                fieldLine ''Depth'' (depthText (defaultDepth (f_depth f)))]))"
  using assms
  by (simp add: buildClarify_def validateRequired_ok Let_def wire_def headerLine_def
      fieldLine_def optLine_def depthText_def typeName_def lit_def)

lemma buildResponse_wire:
  assumes "truthy (f_to f)" "truthy (f_from f)" "truthy (f_requestId f)"
    "truthy (f_status f) \<or> truthy (f_result f)"
  shows "buildResponse f =
    Inr (wire ([headerLine RESPONSE (text_of (f_to f)), fieldLine ''From'' (text_of (f_from f)),
                fieldLine ''RequestId'' (text_of (f_requestId f))] @
               optLine ''Status'' (f_status f) @ optLine ''Result'' (f_result f) @
               optLine ''Context'' (f_context f) @
               [fieldLine ''Depth'' (depthText (defaultDepth (f_depth f)))]))"
  using assms
  by (auto simp add: buildResponse_def validateRequired_ok Let_def wire_def headerLine_def
      fieldLine_def optLine_def depthText_def typeName_def lit_def)

lemma buildBroadcast_wire:
  assumes "truthy (f_from f)" "truthy (f_message f)"
  shows "buildBroadcast nano f =
    Inr (wire ([headerLine BROADCAST (lit ''all''), fieldLine ''From'' (text_of (f_from f)),
                fieldLine ''RequestId'' (requestIdOf nano f),
                fieldLine ''Message'' (text_of (f_message f))] @
               optLine ''Context'' (f_context f) @
               [fieldLine ''Depth'' (depthText (defaultDepth (f_depth f)))]))"
  using assms
  by (simp add: buildBroadcast_def validateRequired_ok Let_def wire_def headerLine_def
      fieldLine_def optLine_def depthText_def requestIdOf_def typeName_def lit_def)

lemma concat_lines_snoc:
  "A \<noteq> [] \<Longrightarrow> \<exists>x. concat (map (\<lambda>l. l @ [NL]) A) = x @ [NL]"
  by (cases A rule: rev_cases) auto

lemma wire_has_line:
  assumes "A \<noteq> []"
  shows "\<exists>pre post. wire (A @ [L] @ B) = pre @ [NL] @ L @ [NL] @ post"
proof -
  from concat_lines_snoc [OF assms] obtain x where x: "concat (map (\<lambda>l. l @ [NL]) A) = x @ [NL]" ..
  have "wire (A @ [L] @ B) =
    (lit ''```'' @ [NL] @ x) @ [NL] @ L @ [NL] @ (concat (map (\<lambda>l. l @ [NL]) B) @ lit ''```'')"
    by (simp add: wire_def x)
  then show ?thesis by blast
qed

text \<open>
  C10. The guard compares for equality only. With the required fields present and
  \<open>depth.current\<close> greater than \<open>depth.max\<close>, \<open>buildRequest\<close>, \<open>buildClarify\<close> and
  \<open>buildHandoff\<close> return a message, and the message has the line
  \<open>Depth: current/max\<close> with the numbers as given.
\<close>

theorem over_limit_depth:
  "(truthy (f_to f) \<and> truthy (f_from f) \<and> truthy (f_task f) \<and> f_depth f = Some d \<and>
    d_max d < d_current d \<longrightarrow>
      (\<exists>pre post. buildRequest nano f =
         Inr (pre @ [NL] @ lit ''Depth: '' @ numToString (d_current d) @ lit ''/'' @
              numToString (d_max d) @ [NL] @ post))) \<and>
   (truthy (f_to f) \<and> truthy (f_from f) \<and> truthy (f_requestId f) \<and> truthy (f_question f) \<and>
    f_depth f = Some d \<and> d_max d < d_current d \<longrightarrow>
      (\<exists>pre post. buildClarify f =
         Inr (pre @ [NL] @ lit ''Depth: '' @ numToString (d_current d) @ lit ''/'' @
              numToString (d_max d) @ [NL] @ post))) \<and>
   (truthy (f_to f) \<and> truthy (f_from f) \<and> truthy (f_requestId f) \<and> truthy (f_task f) \<and>
    f_depth f = Some d \<and> d_max d < d_current d \<longrightarrow>
      (\<exists>pre post. buildHandoff f =
         Inr (pre @ [NL] @ lit ''Depth: '' @ numToString (d_current d) @ lit ''/'' @
              numToString (d_max d) @ [NL] @ post)))"
proof -
  have dl: "lit ''Depth: '' @ numToString (d_current d) @ lit ''/'' @ numToString (d_max d) @ [NL] @ post
    = fieldLine ''Depth'' (depthText d) @ [NL] @ post" for post
    by (simp add: fieldLine_def depthText_def lit_def)
  have req: "\<exists>pre post. buildRequest nano f =
         Inr (pre @ [NL] @ fieldLine ''Depth'' (depthText d) @ [NL] @ post)"
    if "truthy (f_to f)" "truthy (f_from f)" "truthy (f_task f)" "f_depth f = Some d"
      "d_max d < d_current d"
    using that wire_has_line [of "[headerLine REQUEST (text_of (f_to f)), fieldLine ''From'' (text_of (f_from f)),
                fieldLine ''RequestId'' (requestIdOf nano f), fieldLine ''Task'' (text_of (f_task f))] @
               optLine ''Context'' (f_context f)" "fieldLine ''Depth'' (depthText d)"
               "optLine ''Callback'' (f_callback f) @ optLine ''Priority'' (f_priority f)"]
    by (simp add: buildRequest_wire defaultDepth_def)
  have hand: "\<exists>pre post. buildHandoff f =
         Inr (pre @ [NL] @ fieldLine ''Depth'' (depthText d) @ [NL] @ post)"
    if "truthy (f_to f)" "truthy (f_from f)" "truthy (f_requestId f)" "truthy (f_task f)" "f_depth f = Some d"
      "d_max d < d_current d"
    using that wire_has_line [of "[headerLine HANDOFF (text_of (f_to f)), fieldLine ''From'' (text_of (f_from f)),
                fieldLine ''RequestId'' (text_of (f_requestId f)), fieldLine ''Task'' (text_of (f_task f))] @
               optLine ''Context'' (f_context f)" "fieldLine ''Depth'' (depthText d)"
               "optLine ''Callback'' (f_callback f) @ optLine ''Priority'' (f_priority f)"]
    by (simp add: buildHandoff_wire defaultDepth_def)
  have clar: "\<exists>pre post. buildClarify f =
         Inr (pre @ [NL] @ fieldLine ''Depth'' (depthText d) @ [NL] @ post)"
    if "truthy (f_to f)" "truthy (f_from f)" "truthy (f_requestId f)" "truthy (f_question f)" "f_depth f = Some d"
      "d_max d < d_current d"
    using that wire_has_line [of "[headerLine CLARIFY (text_of (f_to f)), fieldLine ''From'' (text_of (f_from f)),
                fieldLine ''RequestId'' (text_of (f_requestId f)), fieldLine ''Question'' (text_of (f_question f))]"
                "fieldLine ''Depth'' (depthText d)" "[]"]
    by (simp add: buildClarify_wire defaultDepth_def)
  show ?thesis
    unfolding dl using req hand clar by blast
qed

theorem over_limit_depth_witness:
  "(\<exists>pre post. buildRequest (lit ''abc123'') (sampleFields 6 5) =
      Inr (pre @ [NL] @ lit ''Depth: 6/5'' @ [NL] @ post)) \<and>
   (\<exists>pre post. buildClarify (sampleFields 6 5) =
      Inr (pre @ [NL] @ lit ''Depth: 6/5'' @ [NL] @ post)) \<and>
   (\<exists>pre post. buildHandoff (sampleFields 6 5) =
      Inr (pre @ [NL] @ lit ''Depth: 6/5'' @ [NL] @ post))"
  using over_limit_depth [of "sampleFields 6 5" "\<lparr>d_current = 6, d_max = 5\<rparr>" "lit ''abc123''"]
  by (simp add: sampleFields_def truthy_def lit_def numToString.simps)

section \<open>What the parser accepts\<close>

lemmas char_class_defs =
  isSpace_def isAlpha_def isWord_def isDigit_def isLineTerminator_def NL_def ARROW_def BACKTICK_def

lemmas parse_defs =
  headerMatch_def validType_def VALID_TYPES_def typeName_def parseFields_def
  lineStep_def kvMatch_def saveCurrent_def saveField_def normalizeKey_def toLowerCase_def lowerCaseUnit_def
  knownFields_def initialResult_def setProperty_def truthy_def parseDepth_def depthMatch_def
  VALID_STATUSES_def VALID_PRIORITIES_def trim_def parseInt_def toNumber_def

lemma blockLines_sampleWire:
  "blockLines sampleWire =
     Some [lit ''[REQUEST '' @ [ARROW] @ lit '' @Mantis]'', lit ''From: Lotbot'',
           lit ''RequestId: lotbot-abc123'', lit ''Task: Check the weather in Paris'',
           lit ''Depth: 1/5'']"
  unfolding sampleWire_def by (simp add: blockLines_def lit_def trim_def char_class_defs)

lemma parse_sampleWire: "parse sampleWire = Some sampleMessage"
  unfolding parse_def blockLines_sampleWire
  by (simp add: parse_defs lit_def char_class_defs sampleMessage_def)

lemma setProperty_type [simp]: "m_type (setProperty r k v) = m_type r"
  by (simp add: setProperty_def)

lemma setProperty_to [simp]: "m_to (setProperty r k v) = m_to r"
  by (simp add: setProperty_def)

lemma saveField_type [simp]: "m_type (saveField r k v) = m_type r"
  by (simp add: saveField_def Let_def)

lemma saveField_to [simp]: "m_to (saveField r k v) = m_to r"
  by (simp add: saveField_def Let_def)

lemma saveCurrent_inv:
  assumes "\<And>r k v. P r \<Longrightarrow> P (saveField r k v)" and "P r"
  shows "P (saveCurrent r ck cv)"
  using assms by (simp add: saveCurrent_def split: option.splits)

lemma lineStep_inv:
  assumes "\<And>r k v. P r \<Longrightarrow> P (saveField r k v)" and "P (fst st)"
  shows "P (fst (lineStep st line))"
proof -
  obtain r ck cv where st: "st = (r, ck, cv)"
    by (cases st) auto
  have r: "P r" using assms(2) by (simp add: st)
  have s: "P (saveCurrent r ck cv)"
    using assms(1) r by (rule saveCurrent_inv)
  show ?thesis
  proof (cases "kvMatch line")
    case None
    then show ?thesis using r by (simp add: lineStep_def st)
  next
    case (Some kv)
    then show ?thesis using s by (cases kv) (simp add: lineStep_def st)
  qed
qed

lemma foldl_lineStep_inv:
  assumes "\<And>r k v. P r \<Longrightarrow> P (saveField r k v)"
  shows "P (fst st) \<Longrightarrow> P (fst (foldl lineStep st ls))"
proof (induction ls arbitrary: st)
  case Nil
  then show ?case by simp
next
  case (Cons l ls)
  have "P (fst (lineStep st l))"
    using assms Cons.prems by (rule lineStep_inv)
  then show ?case using Cons.IH by simp
qed

lemma parseFields_inv:
  assumes "\<And>r k v. P r \<Longrightarrow> P (saveField r k v)" and "P r"
  shows "P (parseFields r ls)"
proof -
  obtain r' ck cv where f: "foldl lineStep (r, None, []) ls = (r', ck, cv)"
    by (cases "foldl lineStep (r, None, []) ls") auto
  have "P (fst (foldl lineStep (r, None, []) ls))"
    by (rule foldl_lineStep_inv [where P = P]) (simp_all add: assms)
  then have "P r'" by (simp add: f)
  then show ?thesis
    using assms(1) by (simp add: parseFields_def f saveCurrent_inv)
qed

lemma parseFields_type: "m_type (parseFields r ls) = m_type r"
  by (rule parseFields_inv [where P = "\<lambda>x. m_type x = m_type r"]) simp_all

lemma parseFields_to: "m_to (parseFields r ls) = m_to r"
  by (rule parseFields_inv [where P = "\<lambda>x. m_to x = m_to r"]) simp_all

lemma parseDepth_fields [simp]:
  "m_type (parseDepth r) = m_type r" "m_to (parseDepth r) = m_to r"
  "m_from (parseDepth r) = m_from r" "m_requestId (parseDepth r) = m_requestId r"
  "m_task (parseDepth r) = m_task r" "m_result (parseDepth r) = m_result r"
  "m_status (parseDepth r) = m_status r" "m_question (parseDepth r) = m_question r"
  "m_message (parseDepth r) = m_message r" "m_meta (parseDepth r) = m_meta r"
  by (simp_all add: parseDepth_def split: depthValue.splits option.splits)

lemma parse_SomeD:
  assumes "parse rawText = Some m"
  obtains ls l0 tyname to ty r where
    "blockLines rawText = Some (l0 # ls)" "headerMatch l0 = Some (tyname, to)"
    "validType tyname = Some ty"
    "r = parseFields (initialResult ty to rawText) ls" "m = parseDepth r"
    "m_type r = ty" "m_to r = to"
    "truthy (m_from r)" "truthy (m_requestId r)"
    "ty = REQUEST \<longrightarrow> truthy (m_task r)"
    "ty = RESPONSE \<longrightarrow> truthy (m_result r) \<or> truthy (m_status r)"
    "ty = CLARIFY \<longrightarrow> truthy (m_question r)"
    "ty = HANDOFF \<longrightarrow> truthy (m_task r)"
    "ty = BROADCAST \<longrightarrow> truthy (m_message r)"
proof -
  obtain lines where bl: "blockLines rawText = Some lines"
    using assms by (cases "blockLines rawText") (simp_all add: parse_def)
  obtain l0 ls where lines: "lines = l0 # ls"
    using assms bl by (cases lines) (simp_all add: parse_def)
  obtain tyname to where hm: "headerMatch l0 = Some (tyname, to)"
    using assms bl lines by (cases "headerMatch l0") (auto simp add: parse_def)
  obtain ty where vt: "validType tyname = Some ty"
    using assms bl lines hm by (cases "validType tyname") (simp_all add: parse_def)
  define r where "r = parseFields (initialResult ty to rawText) ls"
  have "parse rawText =
     (if \<not> truthy (m_from r) \<or> \<not> truthy (m_requestId r) then None
      else if ty = REQUEST \<and> \<not> truthy (m_task (parseDepth r)) then None
      else if ty = RESPONSE \<and> \<not> truthy (m_result (parseDepth r))
              \<and> \<not> truthy (m_status (parseDepth r)) then None
      else if ty = CLARIFY \<and> \<not> truthy (m_question (parseDepth r)) then None
      else if ty = HANDOFF \<and> \<not> truthy (m_task (parseDepth r)) then None
      else if ty = BROADCAST \<and> \<not> truthy (m_message (parseDepth r)) then None
      else Some (parseDepth r))"
    unfolding parse_def r_def
    by (simp only: bl lines hm vt option.case list.case prod.case Let_def)
  with assms have
    "(if \<not> truthy (m_from r) \<or> \<not> truthy (m_requestId r) then None
      else if ty = REQUEST \<and> \<not> truthy (m_task (parseDepth r)) then None
      else if ty = RESPONSE \<and> \<not> truthy (m_result (parseDepth r))
              \<and> \<not> truthy (m_status (parseDepth r)) then None
      else if ty = CLARIFY \<and> \<not> truthy (m_question (parseDepth r)) then None
      else if ty = HANDOFF \<and> \<not> truthy (m_task (parseDepth r)) then None
      else if ty = BROADCAST \<and> \<not> truthy (m_message (parseDepth r)) then None
      else Some (parseDepth r)) = Some m"
    by simp
  then have m: "m = parseDepth r"
    and checks: "truthy (m_from r)" "truthy (m_requestId r)"
    "ty = REQUEST \<longrightarrow> truthy (m_task r)"
    "ty = RESPONSE \<longrightarrow> truthy (m_result r) \<or> truthy (m_status r)"
    "ty = CLARIFY \<longrightarrow> truthy (m_question r)"
    "ty = HANDOFF \<longrightarrow> truthy (m_task r)"
    "ty = BROADCAST \<longrightarrow> truthy (m_message r)"
    by (simp_all split: if_splits)
  have ty: "m_type r = ty" "m_to r = to"
    by (simp_all add: r_def parseFields_type parseFields_to initialResult_def)
  show thesis
    using bl [unfolded lines] hm vt r_def m ty checks by (rule that)
qed

text \<open>
  C3. \<open>parse\<close> returns a message only if \<open>from\<close> and \<open>requestId\<close> are present
  (not null and not empty) and the field that the type requires is present: \<open>task\<close> for
  REQUEST and HANDOFF, \<open>result\<close> or \<open>status\<close> for RESPONSE, \<open>question\<close> for CLARIFY,
  \<open>message\<close> for BROADCAST. An input that lacks one of them gives no message.
\<close>

theorem parse_fully_valid:
  "parse rawText = Some m \<Longrightarrow>
     truthy (m_from m) \<and> truthy (m_requestId m) \<and>
     (m_type m = REQUEST \<or> m_type m = HANDOFF \<longrightarrow> truthy (m_task m)) \<and>
     (m_type m = RESPONSE \<longrightarrow> truthy (m_result m) \<or> truthy (m_status m)) \<and>
     (m_type m = CLARIFY \<longrightarrow> truthy (m_question m)) \<and>
     (m_type m = BROADCAST \<longrightarrow> truthy (m_message m))"
proof -
  assume "parse rawText = Some m"
  then obtain ty r where "m = parseDepth r" "m_type r = ty"
    "truthy (m_from r)" "truthy (m_requestId r)"
    "ty = REQUEST \<longrightarrow> truthy (m_task r)"
    "ty = RESPONSE \<longrightarrow> truthy (m_result r) \<or> truthy (m_status r)"
    "ty = CLARIFY \<longrightarrow> truthy (m_question r)"
    "ty = HANDOFF \<longrightarrow> truthy (m_task r)"
    "ty = BROADCAST \<longrightarrow> truthy (m_message r)"
    by (rule parse_SomeD)
  then show ?thesis by simp
qed

theorem parse_fully_valid_witness:
  "parse sampleWire = Some sampleMessage \<and>
   truthy (m_from sampleMessage) \<and> truthy (m_requestId sampleMessage) \<and>
   m_type sampleMessage = REQUEST \<and> truthy (m_task sampleMessage)"
  using parse_fully_valid [OF parse_sampleWire] parse_sampleWire
  by (simp add: sampleMessage_def)

section \<open>Field values and the depth of a parsed message\<close>

lemma saveField_from:
  "normalizeKey key = lit ''from'' \<Longrightarrow> saveField r key v = r\<lparr>m_from := Some (trim v)\<rparr>"
  by (simp add: saveField_def Let_def knownFields_def setProperty_def lit_def)

lemma saveField_requestid:
  "normalizeKey key = lit ''requestid'' \<Longrightarrow> saveField r key v = r\<lparr>m_requestId := Some (trim v)\<rparr>"
  by (simp add: saveField_def Let_def knownFields_def setProperty_def lit_def)

lemma saveField_task:
  "normalizeKey key = lit ''task'' \<Longrightarrow> saveField r key v = r\<lparr>m_task := Some (trim v)\<rparr>"
  by (simp add: saveField_def Let_def knownFields_def setProperty_def lit_def)

lemma saveField_result:
  "normalizeKey key = lit ''result'' \<Longrightarrow> saveField r key v = r\<lparr>m_result := Some (trim v)\<rparr>"
  by (simp add: saveField_def Let_def knownFields_def setProperty_def lit_def)

lemma saveField_context:
  "normalizeKey key = lit ''context'' \<Longrightarrow> saveField r key v = r\<lparr>m_context := Some (trim v)\<rparr>"
  by (simp add: saveField_def Let_def knownFields_def setProperty_def lit_def)

lemma saveField_depth:
  "normalizeKey key = lit ''depth'' \<Longrightarrow> saveField r key v = r\<lparr>m_depth := DepthText (trim v)\<rparr>"
  by (simp add: saveField_def Let_def knownFields_def setProperty_def lit_def)

lemma saveField_callback:
  "normalizeKey key = lit ''callback'' \<Longrightarrow> saveField r key v = r\<lparr>m_callback := Some (trim v)\<rparr>"
  by (simp add: saveField_def Let_def knownFields_def setProperty_def lit_def)

lemma saveField_priority:
  "normalizeKey key = lit ''priority'' \<Longrightarrow> saveField r key v = r\<lparr>m_priority := (if trim v \<in> set VALID_PRIORITIES then Some (trim v) else None)\<rparr>"
  by (simp add: saveField_def Let_def knownFields_def setProperty_def lit_def)

lemma saveField_status:
  "normalizeKey key = lit ''status'' \<Longrightarrow> saveField r key v = r\<lparr>m_status := (if trim v \<in> set VALID_STATUSES then Some (trim v) else None)\<rparr>"
  by (simp add: saveField_def Let_def knownFields_def setProperty_def lit_def)

lemma saveField_question:
  "normalizeKey key = lit ''question'' \<Longrightarrow> saveField r key v = r\<lparr>m_question := Some (trim v)\<rparr>"
  by (simp add: saveField_def Let_def knownFields_def setProperty_def lit_def)

lemma saveField_message:
  "normalizeKey key = lit ''message'' \<Longrightarrow> saveField r key v = r\<lparr>m_message := Some (trim v)\<rparr>"
  by (simp add: saveField_def Let_def knownFields_def setProperty_def lit_def)

lemma saveField_unknown:
  "normalizeKey key \<notin> set knownFields \<Longrightarrow>
   saveField r key v = r\<lparr>m_meta := (m_meta r)(key \<mapsto> trim v)\<rparr>"
  by (simp add: saveField_def Let_def)

lemma knownFields_cases:
  assumes "k \<in> set knownFields"
  shows "k = lit ''from'' \<or> k = lit ''requestid'' \<or> k = lit ''task'' \<or> k = lit ''result'' \<or>
    k = lit ''context'' \<or> k = lit ''depth'' \<or> k = lit ''callback'' \<or> k = lit ''priority'' \<or>
    k = lit ''status'' \<or> k = lit ''question'' \<or> k = lit ''message''"
  using assms unfolding knownFields_def by simp

lemma saveField_cases:
  obtains
    (unknown) "saveField r key v = r\<lparr>m_meta := (m_meta r)(key \<mapsto> trim v)\<rparr>"
      "normalizeKey key \<notin> set knownFields"
  | (depth) "saveField r key v = r\<lparr>m_depth := DepthText (trim v)\<rparr>"
      "normalizeKey key \<in> set knownFields"
  | (other) "m_depth (saveField r key v) = m_depth r" "m_meta (saveField r key v) = m_meta r"
      "normalizeKey key \<in> set knownFields"
proof (cases "normalizeKey key \<in> set knownFields")
  case False
  then show ?thesis using saveField_unknown unknown by blast
next
  case True
  show ?thesis
  proof (cases "normalizeKey key = lit ''depth''")
    case True
    then show ?thesis using saveField_depth \<open>normalizeKey key \<in> set knownFields\<close> depth by blast
  next
    case False
    with knownFields_cases [OF \<open>normalizeKey key \<in> set knownFields\<close>]
    have "m_depth (saveField r key v) = m_depth r \<and> m_meta (saveField r key v) = m_meta r"
      by (elim disjE) (simp_all add: saveField_from saveField_requestid saveField_task
          saveField_result saveField_context saveField_callback saveField_priority
          saveField_status saveField_question saveField_message)
    then show ?thesis using other \<open>normalizeKey key \<in> set knownFields\<close> by blast
  qed
qed

lemma lineStep_continuation:
  "kvMatch line = None \<Longrightarrow> k \<noteq> [] \<Longrightarrow>
   lineStep (r, Some k, cv) line = (r, Some k, cv @ [line])"
  by (simp add: lineStep_def truthy_def)

lemma foldl_lineStep_continuation:
  "\<forall>l \<in> set ls. kvMatch l = None \<Longrightarrow> k \<noteq> [] \<Longrightarrow>
   foldl lineStep (r, Some k, cv) ls = (r, Some k, cv @ ls)"
  by (induction ls arbitrary: cv) (simp_all add: lineStep_continuation)

lemma lineStep_field:
  "kvMatch line = Some (key, v) \<Longrightarrow>
   lineStep (r, ck, cv) line = (saveCurrent r ck cv, Some (toLowerCase key), [v])"
  by (simp add: lineStep_def)

lemma toLowerCase_Nil_iff [simp]: "toLowerCase k = [] \<longleftrightarrow> k = []"
  by (cases k) (auto simp add: toLowerCase_def lowerCaseUnit_def)

lemma kvMatch_key:
  assumes "kvMatch line = Some (key, v)"
  shows "key \<noteq> []" "list_all isAlpha key"
proof -
  have k: "key = takeWhile isAlpha line" and "takeWhile isAlpha line \<noteq> []"
    using assms by (auto simp add: kvMatch_def Let_def split: if_splits list.splits)
  then show "key \<noteq> []" by simp
  show "list_all isAlpha key"
    unfolding k list_all_iff by (auto dest: set_takeWhileD)
qed

lemma toLowerCase_alpha: "list_all isAlpha key \<Longrightarrow> isLowerKey (toLowerCase key)"
  by (induction key) (auto simp add: toLowerCase_def lowerCaseUnit_def isAlpha_def isLowerKey_def)

lemma toLowerCase_lower: "isLowerKey k \<Longrightarrow> toLowerCase k = k"
  by (induction k) (auto simp add: toLowerCase_def lowerCaseUnit_def isLowerKey_def)

lemma foldl_lineStep_inv2:
  assumes step: "\<And>r k v. P r \<Longrightarrow> Q k \<Longrightarrow> P (saveField r k v)"
    and keys: "\<And>line key v. line \<in> set ls \<Longrightarrow> kvMatch line = Some (key, v) \<Longrightarrow> Q (toLowerCase key)"
    and init: "P r" "\<forall>k. ck = Some k \<longrightarrow> Q k"
  shows "P (fst (foldl lineStep (r, ck, cv) ls)) \<and>
    (\<forall>k. fst (snd (foldl lineStep (r, ck, cv) ls)) = Some k \<longrightarrow> Q k)"
  using keys init
proof (induction ls arbitrary: r ck cv)
  case Nil
  then show ?case by simp
next
  case (Cons l ls)
  show ?case
  proof (cases "kvMatch l")
    case None
    have s: "lineStep (r, ck, cv) l = (r, ck, if truthy ck then cv @ [l] else cv)"
      by (simp add: lineStep_def None)
    show ?thesis
      unfolding foldl_Cons s
      using Cons.prems by (intro Cons.IH) auto
  next
    case (Some kv)
    obtain key v where kv: "kv = (key, v)" by (cases kv)
    have s: "lineStep (r, ck, cv) l = (saveCurrent r ck cv, Some (toLowerCase key), [v])"
      using Some by (simp add: lineStep_field kv)
    have "P (saveCurrent r ck cv)"
      using Cons.prems(2,3) step by (auto simp add: saveCurrent_def split: option.splits)
    moreover have "Q (toLowerCase key)"
      using Cons.prems(1) [of l key v] Some by (simp add: kv)
    ultimately show ?thesis
      unfolding foldl_Cons s
      using Cons.prems(1) by (intro Cons.IH) auto
  qed
qed

lemma parseFields_inv2:
  assumes step: "\<And>r k v. P r \<Longrightarrow> Q k \<Longrightarrow> P (saveField r k v)"
    and keys: "\<And>line key v. line \<in> set ls \<Longrightarrow> kvMatch line = Some (key, v) \<Longrightarrow> Q (toLowerCase key)"
    and init: "P r" "\<forall>k. ck = Some k \<longrightarrow> Q k"
  shows "P (case foldl lineStep (r, ck, cv) ls of (r', ck', cv') \<Rightarrow> saveCurrent r' ck' cv')"
proof -
  obtain r' ck' cv' where f: "foldl lineStep (r, ck, cv) ls = (r', ck', cv')"
    by (cases "foldl lineStep (r, ck, cv) ls") auto
  have "P (fst (foldl lineStep (r, ck, cv) ls)) \<and>
    (\<forall>k. fst (snd (foldl lineStep (r, ck, cv) ls)) = Some k \<longrightarrow> Q k)"
    using step keys init by (rule foldl_lineStep_inv2 [where P = P and Q = Q])
  then have "P r'" "\<forall>k. ck' = Some k \<longrightarrow> Q k"
    by (simp_all add: f)
  then show ?thesis
    using step by (auto simp add: f saveCurrent_def split: option.splits)
qed

lemma blockLines_overLimitWire:
  "blockLines overLimitWire =
     Some [lit ''[REQUEST '' @ [ARROW] @ lit '' @Mantis]'', lit ''From: Lotbot'',
           lit ''RequestId: lotbot-abc123'', lit ''Task: Check the weather in Paris'',
           lit ''Depth: 7/5'']"
  unfolding overLimitWire_def by (simp add: blockLines_def lit_def trim_def char_class_defs)

text \<open>
  C6 as stated fails: the parser takes any two runs of digits, whatever their order.
\<close>

theorem parse_depth_counterexample:
  "map_option m_depth (parse overLimitWire) = Some (DepthObj (Exact 7) (Exact 5)) \<and>
   \<not> (7::nat) \<le> 5"
  unfolding parse_def blockLines_overLimitWire
  by (simp add: parse_defs lit_def char_class_defs)

lemma saveField_depthIsText: "depthIsText r \<Longrightarrow> depthIsText (saveField r k v)"
  by (cases rule: saveField_cases [of r k v]) (simp_all add: depthIsText_def)

lemma parseFields_depthIsText: "depthIsText (parseFields (initialResult ty to raw) ls)"
proof (rule parseFields_inv [where P = depthIsText])
  show "depthIsText (initialResult ty to raw)"
    by (simp add: depthIsText_def initialResult_def)
qed (rule saveField_depthIsText)

lemma parseDepth_shape:
  "depthIsText r \<Longrightarrow>
   m_depth (parseDepth r) = DepthNull \<or> m_depth (parseDepth r) = DepthText [] \<or>
   (\<exists>c x. m_depth (parseDepth r) = DepthObj c x)"
  by (cases "m_depth r") (auto simp add: parseDepth_def depthIsText_def split: option.splits)

lemma parse_depth_shape_aux:
  "parse rawText = Some m \<Longrightarrow>
     m_depth m = DepthNull \<or> m_depth m = DepthText [] \<or> (\<exists>c x. m_depth m = DepthObj c x)"
proof -
  assume "parse rawText = Some m"
  then obtain ty to ls r where "r = parseFields (initialResult ty to rawText) ls"
    "m = parseDepth r"
    by (rule parse_SomeD)
  then show ?thesis
    using parseDepth_shape [OF parseFields_depthIsText] by simp
qed

lemma depthMatch_written:
  assumes "depthWritten s a b"
  shows "depthMatch s = Some (a, b)"
proof -
  have s: "s = a @ 47 # b" and a: "a \<noteq> []" "\<forall>c \<in> set a. isDigit c"
    and b: "b \<noteq> []" "list_all isDigit b"
    using assms by (simp_all add: depthWritten_def list_all_iff)
  have "\<not> isDigit 47"
    by (simp add: isDigit_def)
  then have "takeWhile isDigit s = a" "dropWhile isDigit s = 47 # b"
    unfolding s using a(2) by (simp_all add: takeWhile_append2 dropWhile_append2)
  then show ?thesis
    using a(1) b by (simp add: depthMatch_def)
qed

lemma depthMatch_SomeD:
  assumes "depthMatch s = Some (a, b)"
  shows "depthWritten s a b"
proof -
  have a: "a = takeWhile isDigit s" "a \<noteq> []"
    and d: "dropWhile isDigit s = 47 # b" "b \<noteq> []" "list_all isDigit b"
    using assms by (auto simp add: depthMatch_def Let_def split: if_splits list.splits)
  have "s = takeWhile isDigit s @ dropWhile isDigit s"
    by simp
  then have "s = a @ 47 # b"
    using a(1) d(1) by simp
  moreover have "list_all isDigit a"
    unfolding a(1) list_all_iff by (auto dest: set_takeWhileD)
  ultimately show ?thesis
    using a(2) d(2,3) by (simp add: depthWritten_def)
qed

lemma parseDepth_text:
  assumes "m_depth r = DepthText s" "s \<noteq> []"
  shows "depthWritten s a b \<Longrightarrow> m_depth (parseDepth r) = DepthObj (parseInt a) (parseInt b)"
    and "\<forall>a b. \<not> depthWritten s a b \<Longrightarrow> m_depth (parseDepth r) = DepthNull"
proof -
  show "m_depth (parseDepth r) = DepthObj (parseInt a) (parseInt b)" if "depthWritten s a b"
    using assms depthMatch_written [OF that] by (simp add: parseDepth_def)
  show "m_depth (parseDepth r) = DepthNull" if "\<forall>a b. \<not> depthWritten s a b"
  proof (cases "depthMatch s")
    case None
    then show ?thesis using assms by (simp add: parseDepth_def)
  next
    case (Some ab)
    then show ?thesis using that depthMatch_SomeD [of s "fst ab" "snd ab"] by simp
  qed
qed

lemma isLowerKey_normalizeKey: "isLowerKey k \<Longrightarrow> normalizeKey k = k"
proof -
  assume k: "isLowerKey k"
  then have "filter (\<lambda>c. c \<noteq> 45 \<and> c \<noteq> 95) k = k"
    by (induction k) (auto simp add: isLowerKey_def)
  then show ?thesis
    using k by (simp add: normalizeKey_def toLowerCase_lower)
qed

lemma kvMatch_normalizeKey:
  "kvMatch line = Some (key, v) \<Longrightarrow> normalizeKey (toLowerCase key) = toLowerCase key"
  by (intro isLowerKey_normalizeKey toLowerCase_alpha kvMatch_key)

lemma saveField_depth_other:
  assumes "normalizeKey k \<noteq> lit ''depth''"
  shows "m_depth (saveField r k v) = m_depth r"
proof (cases "normalizeKey k \<in> set knownFields")
  case False
  then show ?thesis
    by (simp add: saveField_unknown)
next
  case True
  with knownFields_cases [OF True] assms show ?thesis
    by (elim disjE) (simp_all add: saveField_from saveField_requestid saveField_task
        saveField_result saveField_context saveField_callback saveField_priority
        saveField_status saveField_question saveField_message)
qed

lemma parseFields_depth_none:
  assumes "\<forall>l \<in> set ls. \<forall>key v. kvMatch l = Some (key, v) \<longrightarrow> \<not> isDepthKey key"
  shows "m_depth (parseFields (initialResult ty to raw) ls) = DepthNull"
  unfolding parseFields_def
proof (rule parseFields_inv2 [where P = "\<lambda>x. m_depth x = DepthNull"
      and Q = "\<lambda>k. normalizeKey k \<noteq> lit ''depth''"])
  show "m_depth (initialResult ty to raw) = DepthNull"
    by (simp add: initialResult_def)
  show "\<forall>k. (None :: jsstring option) = Some k \<longrightarrow> normalizeKey k \<noteq> lit ''depth''"
    by simp
  show "normalizeKey (toLowerCase key) \<noteq> lit ''depth''"
    if "line \<in> set ls" "kvMatch line = Some (key, v)" for line key v
    using that assms by (auto simp add: kvMatch_normalizeKey isDepthKey_def)
  show "m_depth (saveField x k w) = DepthNull"
    if "m_depth x = DepthNull" "normalizeKey k \<noteq> lit ''depth''" for x k w
    using that by (simp add: saveField_depth_other)
qed

lemma parseFields_depth_value:
  assumes line: "kvMatch line = Some (key, v)"
    and depth: "isDepthKey key"
    and later: "\<forall>l \<in> set rest. \<forall>key' v'. kvMatch l = Some (key', v') \<longrightarrow> \<not> isDepthKey key'"
  shows "m_depth (parseFields r (pre @ [line] @ rest)) =
    DepthText (trim (joinNL (v # takeWhile (\<lambda>l. kvMatch l = None) rest)))"
proof -
  define K where "K = toLowerCase key"
  define cont where "cont = takeWhile (\<lambda>l. kvMatch l = None) rest"
  define rest' where "rest' = dropWhile (\<lambda>l. kvMatch l = None) rest"
  define X where "X = DepthText (trim (joinNL (v # cont)))"
  have K: "K \<noteq> []"
    using kvMatch_key(1) [OF line] by (simp add: K_def)
  have nK: "normalizeKey K = lit ''depth''"
    using kvMatch_normalizeKey [OF line] depth by (simp add: K_def isDepthKey_def)
  obtain r0 ck0 cv0 where pre: "foldl lineStep (r, None, []) pre = (r0, ck0, cv0)"
    by (cases "foldl lineStep (r, None, []) pre") auto
  define r1 where "r1 = saveCurrent r0 ck0 cv0"
  have rest: "rest = cont @ rest'"
    by (simp add: cont_def rest'_def)
  have cont: "\<forall>l \<in> set cont. kvMatch l = None"
    unfolding cont_def by (auto dest: set_takeWhileD)
  have upto: "foldl lineStep (r, None, []) (pre @ [line] @ cont) = (r1, Some K, v # cont)"
    using foldl_lineStep_continuation [OF cont K, of r1 "[v]"]
    by (simp add: pre lineStep_field [OF line] r1_def K_def)
  have saved: "m_depth (saveField r1 K (joinNL (v # cont))) = X"
    using nK by (simp add: saveField_depth X_def)
  have all: "foldl lineStep (r, None, []) (pre @ [line] @ rest) =
      foldl lineStep (r1, Some K, v # cont) rest'"
    using upto by (simp add: rest)
  have "m_depth (parseFields r (pre @ [line] @ rest)) = X"
  proof (cases rest')
    case Nil
    then show ?thesis
      unfolding parseFields_def all using saved K by (simp add: saveCurrent_def)
  next
    case (Cons l' rest'')
    have "kvMatch l' \<noteq> None"
      using Cons hd_dropWhile [of "\<lambda>l. kvMatch l = None" rest] by (simp add: rest'_def)
    then obtain key' v' where l': "kvMatch l' = Some (key', v')"
      by auto
    have sub: "set rest'' \<subseteq> set rest" and mem: "l' \<in> set rest"
      using Cons rest by auto
    have ne: "normalizeKey (toLowerCase key') \<noteq> lit ''depth''"
      using later mem l' by (auto simp add: kvMatch_normalizeKey isDepthKey_def)
    have step: "foldl lineStep (r1, Some K, v # cont) rest' =
        foldl lineStep (saveField r1 K (joinNL (v # cont)), Some (toLowerCase key'), [v']) rest''"
      using K by (simp add: Cons lineStep_field [OF l'] saveCurrent_def)
    have "m_depth (case foldl lineStep
            (saveField r1 K (joinNL (v # cont)), Some (toLowerCase key'), [v']) rest'' of
          (r', ck', cv') \<Rightarrow> saveCurrent r' ck' cv') = X"
    proof (rule parseFields_inv2 [where P = "\<lambda>x. m_depth x = X"
          and Q = "\<lambda>k. normalizeKey k \<noteq> lit ''depth''"])
      show "m_depth (saveField r1 K (joinNL (v # cont))) = X"
        by (rule saved)
      show "\<forall>k. Some (toLowerCase key') = Some k \<longrightarrow> normalizeKey k \<noteq> lit ''depth''"
        using ne by simp
      show "normalizeKey (toLowerCase k) \<noteq> lit ''depth''"
        if "l \<in> set rest''" "kvMatch l = Some (k, w)" for l k w
        using that later sub by (auto simp add: kvMatch_normalizeKey isDepthKey_def)
      show "m_depth (saveField x k w) = X"
        if "m_depth x = X" "normalizeKey k \<noteq> lit ''depth''" for x k w
        using that by (simp add: saveField_depth_other)
    qed
    then show ?thesis
      unfolding parseFields_def all step by simp
  qed
  then show ?thesis
    by (simp add: X_def cont_def)
qed

lemma toNumber_exact: "n \<le> 2 ^ 53 \<Longrightarrow> toNumber n = Exact n"
  by (simp add: toNumber_def)

lemma decimalValue_nines:
  "foldl (\<lambda>acc d. acc * 10 + (d - 48)) (a :: nat) (replicate n 57) = (a + 1) * 10 ^ n - 1"
proof (induction n arbitrary: a)
  case 0
  then show ?case by simp
next
  case (Suc n)
  have "a * 10 + (57 - 48) + 1 = (a + 1) * 10"
    by simp
  then show ?case
    using Suc [of "a * 10 + (57 - 48)"] by (simp add: algebra_simps)
qed

lemma parseInt_rounded:
  "parseInt (lit ''9007199254740993'') = Rounded 9007199254740993"
  by (simp add: parseInt_def toNumber_def lit_def)

lemma parseInt_infinite: "parseInt (replicate 310 57) = PosInfinity"
proof -
  have "decimalValue (replicate 310 57) = 10 ^ 310 - 1"
    using decimalValue_nines [of 0 310] by simp
  then show ?thesis
    by (simp add: parseInt_def toNumber_def)
qed

lemma decimalValue_snoc: "decimalValue (xs @ [d]) = decimalValue xs * 10 + (d - 48)"
  by simp

lemma decimalValue_numToString: "decimalValue (numToString n) = n"
proof (induction n rule: numToString.induct)
  case (1 n)
  show ?case
  proof (cases "n < 10")
    case True
    then show ?thesis
      by (subst numToString.simps) simp
  next
    case False
    then have "decimalValue (numToString (n div 10)) = n div 10"
      using 1 by simp
    then have "decimalValue (numToString (n div 10) @ [48 + n mod 10]) = n div 10 * 10 + n mod 10"
      unfolding decimalValue_snoc by simp
    then show ?thesis
      using False by (subst numToString.simps) simp
  qed
qed

lemma parseInt_numToString: "n \<le> 2 ^ 53 \<Longrightarrow> parseInt (numToString n) = Exact n"
  by (simp only: parseInt_def decimalValue_numToString toNumber_exact)

lemma blockLines_malformedDepthWire:
  "blockLines malformedDepthWire =
     Some ((lit ''[REQUEST '' @ [ARROW] @ lit '' @Mantis]'') #
           [lit ''From: Lotbot'', lit ''RequestId: lotbot-abc123'',
            lit ''Task: Check the weather in Paris''] @ [lit ''Depth: 1 of 5''] @ [])"
  unfolding malformedDepthWire_def
  by (simp add: blockLines_def lit_def trim_def char_class_defs)

lemma parse_malformedDepthWire: "parse malformedDepthWire = Some malformedDepthMessage"
  unfolding parse_def blockLines_malformedDepthWire
  by (simp add: parse_defs lit_def char_class_defs malformedDepthMessage_def)

lemma blockLines_noDepthWire:
  "blockLines noDepthWire =
     Some [lit ''[REQUEST '' @ [ARROW] @ lit '' @Mantis]'', lit ''From: Lotbot'',
           lit ''RequestId: lotbot-abc123'', lit ''Task: Check the weather in Paris'']"
  unfolding noDepthWire_def
  by (simp add: blockLines_def lit_def trim_def char_class_defs)

lemma parse_noDepthWire: "parse noDepthWire = Some noDepthMessage"
  unfolding parse_def blockLines_noDepthWire
  by (simp add: parse_defs lit_def char_class_defs noDepthMessage_def)

lemma blockLines_sampleWire_depth:
  "blockLines sampleWire =
     Some ((lit ''[REQUEST '' @ [ARROW] @ lit '' @Mantis]'') #
           [lit ''From: Lotbot'', lit ''RequestId: lotbot-abc123'',
            lit ''Task: Check the weather in Paris''] @ [lit ''Depth: 1/5''] @ [])"
  using blockLines_sampleWire by simp

text \<open>
  C6, amended. Let \<open>parse\<close> accept an input. If no line after the header is a Depth field
  (the key \<open>Depth\<close> in any casing, a colon, a value), the depth of the message is null. If
  there is one, take the last: its value is what follows the colon, joined by newlines
  with the continuation lines after it, and trimmed. When this value is not empty, the
  depth is the pair of the numbers that \<^verbatim>\<open>parseInt\<close> reads from the two runs of digits if
  the value is a run of digits, a slash and a run of digits, and null otherwise: every
  other non-empty value is discarded. Each of the two numbers is the non-negative integer
  that its digits write when that is at most \<open>2 ^ 53\<close> (above, \<^verbatim>\<open>parseInt\<close> gives the nearest
  double, and \<^verbatim>\<open>Infinity\<close> beyond the largest one). No order between \<open>current\<close> and \<open>max\<close>
  is checked. In every case the depth is null, the empty text or such a pair.
\<close>

theorem parse_depth:
  assumes "parse rawText = Some m"
    and "blockLines rawText = Some (l0 # ls)"
  shows
    "(m_depth m = DepthNull \<or> m_depth m = DepthText [] \<or> (\<exists>c x. m_depth m = DepthObj c x)) \<and>
     ((\<forall>l \<in> set ls. \<forall>key v. kvMatch l = Some (key, v) \<longrightarrow> \<not> isDepthKey key) \<longrightarrow>
        m_depth m = DepthNull) \<and>
     (ls = pre @ [line] @ rest \<and> kvMatch line = Some (key, v) \<and> isDepthKey key \<and>
      (\<forall>l \<in> set rest. \<forall>key' v'. kvMatch l = Some (key', v') \<longrightarrow> \<not> isDepthKey key') \<and>
      s = trim (joinNL (v # takeWhile (\<lambda>l. kvMatch l = None) rest)) \<and> s \<noteq> [] \<longrightarrow>
        (\<forall>a b. depthWritten s a b \<longrightarrow>
           m_depth m = DepthObj (parseInt a) (parseInt b) \<and>
           (decimalValue a \<le> 2 ^ 53 \<longrightarrow> parseInt a = Exact (decimalValue a)) \<and>
           (decimalValue b \<le> 2 ^ 53 \<longrightarrow> parseInt b = Exact (decimalValue b))) \<and>
        ((\<forall>a b. \<not> depthWritten s a b) \<longrightarrow> m_depth m = DepthNull))"
proof -
  from assms(1) obtain l0' ls' ty to r where bl: "blockLines rawText = Some (l0' # ls')"
    and r: "r = parseFields (initialResult ty to rawText) ls'" and m: "m = parseDepth r"
    by (rule parse_SomeD)
  have ls: "ls' = ls"
    using bl assms(2) by simp
  have shape: "m_depth m = DepthNull \<or> m_depth m = DepthText [] \<or>
      (\<exists>c x. m_depth m = DepthObj c x)"
    using assms(1) by (rule parse_depth_shape_aux)
  have none: "m_depth m = DepthNull"
    if "\<forall>l \<in> set ls. \<forall>key v. kvMatch l = Some (key, v) \<longrightarrow> \<not> isDepthKey key"
  proof -
    have "m_depth r = DepthNull"
      unfolding r ls using that by (rule parseFields_depth_none)
    then show ?thesis
      by (simp add: m parseDepth_def)
  qed
  have some: "(\<forall>a b. depthWritten s a b \<longrightarrow>
           m_depth m = DepthObj (parseInt a) (parseInt b) \<and>
           (decimalValue a \<le> 2 ^ 53 \<longrightarrow> parseInt a = Exact (decimalValue a)) \<and>
           (decimalValue b \<le> 2 ^ 53 \<longrightarrow> parseInt b = Exact (decimalValue b))) \<and>
        ((\<forall>a b. \<not> depthWritten s a b) \<longrightarrow> m_depth m = DepthNull)"
    if split: "ls = pre @ [line] @ rest" and line: "kvMatch line = Some (key, v)"
      and key: "isDepthKey key"
      and later: "\<forall>l \<in> set rest. \<forall>key' v'. kvMatch l = Some (key', v') \<longrightarrow> \<not> isDepthKey key'"
      and s: "s = trim (joinNL (v # takeWhile (\<lambda>l. kvMatch l = None) rest))" and ne: "s \<noteq> []"
  proof -
    have dt: "m_depth r = DepthText s"
      unfolding r ls split s using line key later by (rule parseFields_depth_value)
    show ?thesis
      using parseDepth_text [OF dt ne] by (simp add: m parseInt_def toNumber_exact)
  qed
  show ?thesis
    using shape none some by blast
qed

theorem parse_depth_witness:
  "parse sampleWire = Some sampleMessage \<and>
   kvMatch (lit ''Depth: 1/5'') = Some (lit ''Depth'', lit ''1/5'') \<and>
   isDepthKey (lit ''Depth'') \<and> depthWritten (lit ''1/5'') (lit ''1'') (lit ''5'') \<and>
   m_depth sampleMessage = DepthObj (Exact 1) (Exact 5) \<and>
   parse malformedDepthWire = Some malformedDepthMessage \<and>
   kvMatch (lit ''Depth: 1 of 5'') = Some (lit ''Depth'', lit ''1 of 5'') \<and>
   (\<forall>a b. \<not> depthWritten (lit ''1 of 5'') a b) \<and>
   m_depth malformedDepthMessage = DepthNull \<and>
   parse noDepthWire = Some noDepthMessage \<and> m_depth noDepthMessage = DepthNull"
proof -
  have key: "isDepthKey (lit ''Depth'')"
    by (simp add: isDepthKey_def toLowerCase_def lowerCaseUnit_def lit_def)
  have later: "\<forall>l \<in> set []. \<forall>key' v'. kvMatch l = Some (key', v') \<longrightarrow> \<not> isDepthKey key'"
    by simp
  have kv1: "kvMatch (lit ''Depth: 1/5'') = Some (lit ''Depth'', lit ''1/5'')"
    by (simp add: kvMatch_def lit_def char_class_defs)
  have s1: "lit ''1/5'' = trim (joinNL (lit ''1/5'' # takeWhile (\<lambda>l. kvMatch l = None) []))"
    by (simp add: trim_def lit_def isSpace_def)
  have w1: "depthWritten (lit ''1/5'') (lit ''1'') (lit ''5'')"
    by (simp add: depthWritten_def lit_def isDigit_def)
  have d1: "decimalValue (lit ''1'') = 1" "decimalValue (lit ''5'') = 5"
    by (simp_all add: lit_def)
  have kv2: "kvMatch (lit ''Depth: 1 of 5'') = Some (lit ''Depth'', lit ''1 of 5'')"
    by (simp add: kvMatch_def lit_def char_class_defs)
  have s2: "lit ''1 of 5'' =
      trim (joinNL (lit ''1 of 5'' # takeWhile (\<lambda>l. kvMatch l = None) []))"
    by (simp add: trim_def lit_def isSpace_def)
  have w2: "\<forall>a b. \<not> depthWritten (lit ''1 of 5'') a b"
  proof (intro allI notI)
    fix a b
    assume "depthWritten (lit ''1 of 5'') a b"
    then have "depthMatch (lit ''1 of 5'') = Some (a, b)"
      by (rule depthMatch_written)
    then show False
      by (simp add: depthMatch_def lit_def isDigit_def)
  qed
  have ne: "lit ''1/5'' \<noteq> []" "lit ''1 of 5'' \<noteq> []"
    by (simp_all add: lit_def)
  have a: "m_depth sampleMessage = DepthObj (Exact 1) (Exact 5)"
    using parse_depth [OF parse_sampleWire blockLines_sampleWire_depth,
        of "[lit ''From: Lotbot'', lit ''RequestId: lotbot-abc123'',
            lit ''Task: Check the weather in Paris'']" "lit ''Depth: 1/5''" "[]"
           "lit ''Depth''" "lit ''1/5''" "lit ''1/5''"]
      kv1 key later s1 w1 ne d1
    by auto
  have b: "m_depth malformedDepthMessage = DepthNull"
    using parse_depth [OF parse_malformedDepthWire blockLines_malformedDepthWire,
        of "[lit ''From: Lotbot'', lit ''RequestId: lotbot-abc123'',
            lit ''Task: Check the weather in Paris'']" "lit ''Depth: 1 of 5''" "[]"
           "lit ''Depth''" "lit ''1 of 5''" "lit ''1 of 5''"]
      kv2 key later s2 w2 ne
    by auto
  have kvs: "kvMatch (lit ''From: Lotbot'') = Some (lit ''From'', lit ''Lotbot'')"
    "kvMatch (lit ''RequestId: lotbot-abc123'') = Some (lit ''RequestId'', lit ''lotbot-abc123'')"
    "kvMatch (lit ''Task: Check the weather in Paris'') =
       Some (lit ''Task'', lit ''Check the weather in Paris'')"
    by (simp_all add: kvMatch_def lit_def char_class_defs)
  have keys: "\<not> isDepthKey (lit ''From'')" "\<not> isDepthKey (lit ''RequestId'')"
    "\<not> isDepthKey (lit ''Task'')"
    by (simp_all add: isDepthKey_def toLowerCase_def lowerCaseUnit_def lit_def)
  have no: "\<forall>l \<in> set [lit ''From: Lotbot'', lit ''RequestId: lotbot-abc123'',
      lit ''Task: Check the weather in Paris'']. \<forall>key v. kvMatch l = Some (key, v) \<longrightarrow>
        \<not> isDepthKey key"
    using kvs keys by auto
  have c: "m_depth noDepthMessage = DepthNull"
    using parse_depth [OF parse_noDepthWire blockLines_noDepthWire] no by blast
  show ?thesis
    using a b c parse_sampleWire parse_malformedDepthWire parse_noDepthWire kv1 kv2 key w1 w2
    by simp
qed

section \<open>Cleanup of the state store\<close>

lemma lit_eq_iff [simp]: "lit a = lit b \<longleftrightarrow> a = b"
  by (simp add: lit_def inj_map_eq_map inj_of_char)

text \<open>
  C5 as stated fails for the status \<open>partial\<close>: \<open>cleanup\<close> keeps such a record however
  old it is.
\<close>

theorem cleanup_partial_counterexample:
  "cleanup [(lit ''r3'', sampleConversation (lit ''partial'') 1000 RESPONSE)] 100000 (Some 10) =
     ([(lit ''r3'', sampleConversation (lit ''partial'') 1000 RESPONSE)], 0) \<and>
   100000 - c_updatedAt (sampleConversation (lit ''partial'') 1000 RESPONSE) > 10"
  by (simp add: cleanup_def sampleConversation_def)

lemma cleanupLoop_eq:
  "cleanupLoop es now older st n =
     (filter (\<lambda>e. fst e \<notin> fst ` set (filter (\<lambda>e. removable now older (snd e)) es)) st,
      n + length (filter (\<lambda>e. removable now older (snd e)) es))"
proof (induction es arbitrary: st n)
  case Nil
  then show ?case by simp
next
  case (Cons e es)
  obtain k c where e: "e = (k, c)" by (cases e)
  show ?case
  proof (cases "removable now older c")
    case True
    then have "cleanupLoop (e # es) now older st n =
      cleanupLoop es now older (deleteEntry st k) (n + 1)"
      by (auto simp add: e removable_def)
    then show ?thesis
      using True by (auto simp add: Cons.IH e deleteEntry_def intro: filter_cong)
  next
    case False
    then have "cleanupLoop (e # es) now older st n = cleanupLoop es now older st n"
      by (auto simp add: e removable_def)
    then show ?thesis
      using False by (simp add: Cons.IH e)
  qed
qed

lemma distinct_keys_filter:
  assumes "distinct (map fst st)"
  shows "filter (\<lambda>e. fst e \<notin> fst ` set (filter P st)) st = filter (\<lambda>e. \<not> P e) st"
proof (rule filter_cong [OF refl])
  fix e assume e: "e \<in> set st"
  have "P e" if "e' \<in> set st" "P e'" "fst e = fst e'" for e'
  proof -
    have "e = e'"
      using assms e that(1,3) by (metis eq_key_imp_eq_value prod.collapse)
    then show ?thesis using that(2) by simp
  qed
  then show "(fst e \<notin> fst ` set (filter P st)) = (\<not> P e)"
    using e by auto
qed

text \<open>
  C5, amended. \<open>cleanup\<close> deletes exactly the records whose status is \<open>done\<close>,
  \<open>failed\<close> or \<open>timeout\<close> and whose age \<open>now - updatedAt\<close> exceeds the threshold (one day
  when none is given), and returns how many it removed. A record whose status is \<open>open\<close>,
  \<open>clarifying\<close> or \<open>partial\<close> stays, whatever its age. The keys of a state are distinct,
  as the property names of an object are.
\<close>

theorem cleanup_removes:
  assumes "distinct (map fst st)"
  shows "cleanup st now olderThan =
      (filter (\<lambda>e. \<not> removable now (case olderThan of Some x \<Rightarrow> x | None \<Rightarrow> 86400000) (snd e)) st,
       length (filter (\<lambda>e. removable now (case olderThan of Some x \<Rightarrow> x | None \<Rightarrow> 86400000) (snd e)) st)) \<and>
    (\<forall>e \<in> set st. c_status (snd e) = lit ''open'' \<or> c_status (snd e) = lit ''clarifying'' \<or>
        c_status (snd e) = lit ''partial'' \<longrightarrow> e \<in> set (fst (cleanup st now olderThan)))"
proof -
  define older where "older = (case olderThan of Some x \<Rightarrow> x | None \<Rightarrow> (86400000::int))"
  define rem where "rem = (\<lambda>e :: jsstring \<times> conversation. removable now older (snd e))"
  have "cleanupLoop st now older st 0 =
      (filter (\<lambda>e. fst e \<notin> fst ` set (filter rem st)) st, 0 + length (filter rem st))"
    unfolding rem_def by (rule cleanupLoop_eq)
  then have loop:
    "cleanupLoop st now older st 0 = (filter (\<lambda>e. \<not> rem e) st, length (filter rem st))"
    by (simp only: distinct_keys_filter [OF assms] add_0)
  have same: "filter (\<lambda>e. \<not> rem e) st = st" if "length (filter rem st) = 0"
    using that by (simp add: filter_empty_conv)
  have older: "(case olderThan of Some x \<Rightarrow> x | None \<Rightarrow> 24 * 60 * 60 * 1000) = older"
    by (simp add: older_def split: option.splits)
  have "cleanup st now olderThan =
      (if length (filter rem st) > 0 then filter (\<lambda>e. \<not> rem e) st else st, length (filter rem st))"
    unfolding cleanup_def Let_def older loop by simp
  then have eq: "cleanup st now olderThan = (filter (\<lambda>e. \<not> rem e) st, length (filter rem st))"
    using same by (cases "length (filter rem st) > 0") simp_all
  have keep: "e \<in> set (filter (\<lambda>e. \<not> rem e) st)"
    if "e \<in> set st" "c_status (snd e) = lit ''open'' \<or> c_status (snd e) = lit ''clarifying'' \<or>
        c_status (snd e) = lit ''partial''" for e
    using that by (auto simp add: rem_def removable_def)
  show ?thesis
    using eq keep unfolding rem_def older_def by simp
qed

theorem cleanup_removes_witness:
  "distinct (map fst sampleState) \<and>
   cleanup sampleState 100000 (Some 10) =
     ([(lit ''r2'', sampleConversation (lit ''open'') 1000 REQUEST),
       (lit ''r3'', sampleConversation (lit ''partial'') 1000 RESPONSE),
       (lit ''r4'', sampleConversation (lit ''clarifying'') 1000 CLARIFY)], 1)"
proof -
  have d: "distinct (map fst sampleState)"
    by (simp add: sampleState_def)
  show ?thesis
    using d cleanup_removes [OF d, of 100000 "Some 10"]
    by (simp add: sampleState_def removable_def sampleConversation_def)
qed

section \<open>The timeout sweep\<close>

lemma map_fst_updateEntry [simp]: "map fst (updateEntry st k v) = map fst st"
  by (induction st) (auto simp add: updateEntry_def)

lemma map_of_distinct_Some:
  "distinct (map fst st) \<Longrightarrow> (k, c) \<in> set st \<Longrightarrow> map_of st k = Some c"
  by simp

lemma timeout_own:
  assumes "distinct (map fst store)" "(k, c) \<in> set store"
  shows "timeout store now k reason =
    Inr (updateEntry store k
           (c\<lparr>c_status := lit ''timeout'', c_updatedAt := now,
               c_history := c_history c @ [TimeoutEntry reason now]\<rparr>),
         Some (c\<lparr>c_status := lit ''timeout'', c_updatedAt := now,
               c_history := c_history c @ [TimeoutEntry reason now]\<rparr>))"
  using assms by (simp add: timeout_def Let_def)

lemma window_eq:
  "(case DEFAULT_TIMEOUTS t of Some ms \<Rightarrow> ms | None \<Rightarrow> the (DEFAULT_TIMEOUTS REQUEST)) = specWindow t"
  by (cases t) (simp_all add: DEFAULT_TIMEOUTS_def specWindow_def)

lemma checkLoop_step:
  "checkLoop ((k, c) # es) now store acc =
     (if overdue now c
      then (case timeout store now k
                   (lit ''No response after '' @
                    numToString (nat ((now - c_updatedAt c) div 1000 div 60)) @
                    lit '' minutes'') of
              Inl e \<Rightarrow> Inl e
            | Inr (store', r) \<Rightarrow> checkLoop es now store' (acc @ [k]))
      else checkLoop es now store acc)"
  by (auto simp add: overdue_def Let_def window_eq)

declare checkLoop.simps(2) [simp del]

lemma checkLoop_eq:
  assumes "distinct (map fst store)" "set es \<subseteq> set store" "distinct (map fst es)"
  shows "checkLoop es now store acc =
    Inr (map (\<lambda>e. if e \<in> set es \<and> overdue now (snd e) then (fst e, swept now (snd e)) else e) store,
         acc @ map fst (filter (\<lambda>e. overdue now (snd e)) es))"
  using assms
proof (induction es arbitrary: store acc)
  case Nil
  then show ?case by (simp add: map_idI)
next
  case (Cons e es)
  obtain k c where e: "e = (k, c)" by (cases e)
  have notin: "k \<notin> fst ` set es" and des: "distinct (map fst es)"
    using Cons.prems(3) by (auto simp add: e)
  have sub: "set es \<subseteq> set store" and mem: "(k, c) \<in> set store"
    using Cons.prems(2) by (auto simp add: e)
  show ?case
  proof (cases "overdue now c")
    case False
    have "checkLoop (e # es) now store acc = checkLoop es now store acc"
      using False unfolding e checkLoop_step by simp
    also have "\<dots> = Inr (map (\<lambda>e. if e \<in> set es \<and> overdue now (snd e)
          then (fst e, swept now (snd e)) else e) store,
         acc @ map fst (filter (\<lambda>e. overdue now (snd e)) es))"
      using Cons.prems(1) sub des by (rule Cons.IH)
    finally show ?thesis
      using False by (auto simp add: e intro!: map_cong)
  next
    case True
    define store' where "store' = updateEntry store k (swept now c)"
    have step: "checkLoop (e # es) now store acc = checkLoop es now store' (acc @ [k])"
      using True unfolding e checkLoop_step
      by (simp add: timeout_own [OF Cons.prems(1) mem] store'_def swept_def)
    have d': "distinct (map fst store')"
      using Cons.prems(1) by (simp add: store'_def)
    have sub': "set es \<subseteq> set store'"
    proof
      fix x assume x: "x \<in> set es"
      then have "fst x \<noteq> k" using notin by auto
      moreover have "x \<in> set store" using x sub by auto
      ultimately show "x \<in> set store'"
        by (auto simp add: store'_def updateEntry_def image_iff intro!: bexI [of _ x])
    qed
    have "checkLoop es now store' (acc @ [k]) =
        Inr (map (\<lambda>e. if e \<in> set es \<and> overdue now (snd e)
          then (fst e, swept now (snd e)) else e) store',
         (acc @ [k]) @ map fst (filter (\<lambda>e. overdue now (snd e)) es))"
      using d' sub' des by (rule Cons.IH)
    moreover have "map (\<lambda>e. if e \<in> set es \<and> overdue now (snd e)
          then (fst e, swept now (snd e)) else e) store' =
        map (\<lambda>x. if x \<in> set (e # es) \<and> overdue now (snd x)
          then (fst x, swept now (snd x)) else x) store"
      unfolding store'_def updateEntry_def map_map
    proof (rule map_cong [OF refl])
      fix x assume x: "x \<in> set store"
      show "((\<lambda>e. if e \<in> set es \<and> overdue now (snd e)
          then (fst e, swept now (snd e)) else e) \<circ>
          (\<lambda>e. if fst e = k then (k, swept now c) else e)) x =
         (if x \<in> set (e # es) \<and> overdue now (snd x) then (fst x, swept now (snd x)) else x)"
      proof (cases "fst x = k")
        case True
        then have "x = (k, c)"
          using Cons.prems(1) x mem by (metis eq_key_imp_eq_value prod.collapse)
        moreover have "(k, swept now c) \<notin> set es"
          using notin by (auto simp add: image_iff)
        ultimately show ?thesis
          using \<open>overdue now c\<close> by (simp add: e)
      next
        case False
        then show ?thesis by (auto simp add: e)
      qed
    qed
    ultimately show ?thesis
      using True by (simp add: step [unfolded e] e)
  qed
qed

text \<open>
  C4. \<open>checkTimeouts\<close> returns the identifiers of exactly the records that are \<open>overdue\<close>:
  status \<open>open\<close> or \<open>clarifying\<close>, and \<open>now - updatedAt\<close> greater than the window of the
  record's \<open>lastType\<close> (CLARIFY 10 minutes, REQUEST 30, HANDOFF 30, BROADCAST 5, any other
  type 30). In the state it leaves, each of them is the record that \<open>timeout\<close> makes, whose
  status is \<open>timeout\<close>, and every other record is as it was. The keys of a state are
  distinct, as the property names of an object are.
\<close>

theorem checkTimeouts_flags:
  assumes "distinct (map fst st)"
  shows "checkTimeouts st now =
    Inr (map (\<lambda>e. if overdue now (snd e) then (fst e, swept now (snd e)) else e) st,
         map fst (filter (\<lambda>e. overdue now (snd e)) st)) \<and>
    (\<forall>conv. c_status (swept now conv) = lit ''timeout'')"
proof -
  have "checkTimeouts st now =
    Inr (map (\<lambda>e. if e \<in> set st \<and> overdue now (snd e) then (fst e, swept now (snd e)) else e) st,
         [] @ map fst (filter (\<lambda>e. overdue now (snd e)) st))"
    unfolding checkTimeouts_def using assms subset_refl assms by (rule checkLoop_eq)
  moreover have "map (\<lambda>e. if e \<in> set st \<and> overdue now (snd e) then (fst e, swept now (snd e)) else e) st
    = map (\<lambda>e. if overdue now (snd e) then (fst e, swept now (snd e)) else e) st"
    by (rule map_cong) simp_all
  ultimately show ?thesis by (simp add: swept_def)
qed

theorem checkTimeouts_flags_witness:
  "distinct (map fst sampleState) \<and>
   checkTimeouts sampleState 601001 =
     Inr ([(lit ''r1'', sampleConversation (lit ''done'') 1000 RESPONSE),
           (lit ''r2'', sampleConversation (lit ''open'') 1000 REQUEST),
           (lit ''r3'', sampleConversation (lit ''partial'') 1000 RESPONSE),
           (lit ''r4'', swept 601001 (sampleConversation (lit ''clarifying'') 1000 CLARIFY))],
          [lit ''r4'']) \<and>
   checkTimeouts sampleState 541000 = Inr (sampleState, [])"
proof -
  have d: "distinct (map fst sampleState)"
    by (simp add: sampleState_def)
  show ?thesis
    using d checkTimeouts_flags [OF d, of 601001] checkTimeouts_flags [OF d, of 541000]
    by (simp add: sampleState_def overdue_def specWindow_def sampleConversation_def)
qed

section \<open>Tracking conversations\<close>

lemma lit_Nil_iff [simp]: "lit s = [] \<longleftrightarrow> s = []"
  by (simp add: lit_def)

lemma blockLines_clarifyWire:
  "blockLines clarifyWire =
     Some [lit ''[CLARIFY '' @ [ARROW] @ lit '' @Lotbot]'', lit ''From: Mantis'',
           lit ''RequestId: lotbot-abc123'', lit ''Question: Which city?'', lit ''Depth: 2/5'']"
  unfolding clarifyWire_def by (simp add: blockLines_def lit_def trim_def char_class_defs)

lemma parse_clarifyWire: "parse clarifyWire = Some clarifyMessage"
  unfolding parse_def blockLines_clarifyWire
  by (simp add: parse_defs lit_def char_class_defs clarifyMessage_def)

lemma track_sampleMessage:
  "track [] 1000 sampleMessage = Inr ([(lit ''lotbot-abc123'', trackedOnce)], trackedOnce)"
  by (simp add: track_def stored_def sampleMessage_def trackedOnce_def keyOf_def
      objectPrototypeNames_def insertEntry_def isArrayIndex_def orElse_def truthy_def Let_def)

lemma track_clarifyMessage:
  "track [(lit ''lotbot-abc123'', trackedOnce)] 2000 clarifyMessage =
     Inr ([(lit ''lotbot-abc123'', trackedTwice)], trackedTwice)"
  by (simp add: track_def stored_def clarifyMessage_def trackedOnce_def trackedTwice_def
      keyOf_def updateEntry_def orElse_def truthy_def Let_def)

text \<open>
  C7 as stated fails: a second message for a known request leaves the depth of the record
  as the first message set it.
\<close>

theorem track_depth_counterexample:
  "parse clarifyWire = Some clarifyMessage \<and>
   m_depth clarifyMessage = DepthObj (Exact 2) (Exact 5) \<and>
   track [] 1000 sampleMessage = Inr ([(lit ''lotbot-abc123'', trackedOnce)], trackedOnce) \<and>
   track [(lit ''lotbot-abc123'', trackedOnce)] 2000 clarifyMessage =
     Inr ([(lit ''lotbot-abc123'', trackedTwice)], trackedTwice) \<and>
   c_depth trackedTwice = Some (Exact 1)"
  using parse_clarifyWire track_sampleMessage track_clarifyMessage
  by (simp add: clarifyMessage_def trackedTwice_def)

lemma map_of_updateEntry_same:
  "map_of st k = Some c0 \<Longrightarrow> map_of (updateEntry st k v) k = Some v"
  by (induction st) (auto simp add: updateEntry_def)

lemma map_of_insertEntry_same:
  assumes "map_of st k = None"
  shows "map_of (insertEntry st k v) k = Some v"
proof -
  have "k \<notin> fst ` set (takeWhile P st)" for P
    using assms by (metis (no_types, lifting) image_iff map_of_eq_None_iff set_takeWhileD)
  then have "map_of (takeWhile P st) k = None" for P
    by (simp add: map_of_eq_None_iff)
  then show ?thesis
    using assms by (simp add: insertEntry_def map_add_def)
qed

lemma set_updateEntry: "x \<in> set (updateEntry st k v) \<Longrightarrow> x \<in> set st \<or> x = (k, v)"
  by (auto simp add: updateEntry_def split: if_splits)

lemma set_insertEntry: "set (insertEntry st k v) = insert (k, v) (set st)"
proof -
  have "set (takeWhile P st) \<union> set (dropWhile P st) = set st" for P
    by (metis set_append takeWhile_dropWhile_id)
  then show ?thesis
    by (auto simp add: insertEntry_def)
qed

lemma c_status_stored [simp]: "c_status (stored c) = c_status c"
  by (simp add: stored_def)

lemma track_cases:
  assumes "track st now m = Inr (st', c)"
  obtains (new) "map_of st (keyOf (m_requestId m)) = None"
      "st' = insertEntry st (keyOf (m_requestId m)) (stored c)"
      "c_depth c = (case m_depth m of DepthObj cur mx \<Rightarrow> Some cur
                     | DepthText s \<Rightarrow> if s = [] then Some (Exact 1) else None
                     | DepthNull \<Rightarrow> Some (Exact 1))"
      "c_status c = (if m_type m = RESPONSE
                     then (if truthy (m_status m) then text_of (m_status m) else lit ''done'')
                     else lit ''open'')"
  | (old) c0 where "map_of st (keyOf (m_requestId m)) = Some c0"
      "st' = updateEntry st (keyOf (m_requestId m)) (stored c)"
      "c_depth c = c_depth c0"
      "c_status c = (if m_type m = RESPONSE
                     then (if truthy (m_status m) then text_of (m_status m) else lit ''done'')
                     else if m_type m = CLARIFY then lit ''clarifying'' else c_status c0)"
proof (cases "map_of st (keyOf (m_requestId m))")
  case None
  with assms show ?thesis
    by (intro new) (auto simp add: track_def Let_def split: if_splits)
next
  case (Some c0)
  with assms show ?thesis
    by (intro old [of c0]) (auto simp add: track_def Let_def split: if_splits)
qed

lemma track_infinite_depth:
  assumes "m_depth m = DepthObj PosInfinity mx" "map_of st (keyOf (m_requestId m)) = None"
    "keyOf (m_requestId m) \<notin> set objectPrototypeNames"
  shows "\<exists>conv. track st now m =
      Inr (insertEntry st (keyOf (m_requestId m)) (conv\<lparr>c_depth := None\<rparr>), conv) \<and>
    c_depth conv = Some PosInfinity"
  using assms by (simp add: track_def stored_def Let_def)

text \<open>
  C7, amended. The call of \<open>track\<close> that creates a record sets its depth to the current
  depth of the message, the number that \<open>parse\<close> read (to 1 when the message carries no
  depth); every later call for the same \<open>requestId\<close> leaves the depth as it was. The depth
  of a record is the first current depth seen. The record written to the state file under
  the \<open>requestId\<close> is the record returned, except for a depth that is \<^verbatim>\<open>Infinity\<close> (read
  from a run of digits that no double holds), which the file holds as \<^verbatim>\<open>null\<close>.
\<close>

theorem track_depth:
  assumes "parse rawText = Some m" "track st now m = Inr (st', conv)"
  shows "map_of st' (keyOf (m_requestId m)) = Some (stored conv) \<and>
    (c_depth conv \<noteq> Some PosInfinity \<longrightarrow> stored conv = conv) \<and>
    c_depth (stored conv) = (if c_depth conv = Some PosInfinity then None else c_depth conv) \<and>
    (map_of st (keyOf (m_requestId m)) = None \<longrightarrow>
       c_depth conv = Some (case m_depth m of DepthObj cur mx \<Rightarrow> cur | _ \<Rightarrow> Exact 1)) \<and>
    (\<forall>c0. map_of st (keyOf (m_requestId m)) = Some c0 \<longrightarrow> c_depth conv = c_depth c0)"
proof -
  from assms(1) have shape:
    "m_depth m = DepthNull \<or> m_depth m = DepthText [] \<or> (\<exists>c x. m_depth m = DepthObj c x)"
    by (rule parse_depth_shape_aux)
  have st: "stored conv = conv" if "c_depth conv \<noteq> Some PosInfinity"
    using that by (simp add: stored_def)
  have dp: "c_depth (stored conv) =
      (if c_depth conv = Some PosInfinity then None else c_depth conv)"
    by (simp add: stored_def)
  from assms(2) have "map_of st' (keyOf (m_requestId m)) = Some (stored conv) \<and>
    (map_of st (keyOf (m_requestId m)) = None \<longrightarrow>
       c_depth conv = Some (case m_depth m of DepthObj cur mx \<Rightarrow> cur | _ \<Rightarrow> Exact 1)) \<and>
    (\<forall>c0. map_of st (keyOf (m_requestId m)) = Some c0 \<longrightarrow> c_depth conv = c_depth c0)"
  proof (cases rule: track_cases)
    case new
    then show ?thesis
      using shape by (auto simp add: map_of_insertEntry_same)
  next
    case (old c0)
    then show ?thesis
      by (simp add: map_of_updateEntry_same)
  qed
  then show ?thesis
    using st dp by blast
qed

theorem track_depth_witness:
  "parse sampleWire = Some sampleMessage \<and> parse clarifyWire = Some clarifyMessage \<and>
   track [] 1000 sampleMessage = Inr ([(lit ''lotbot-abc123'', trackedOnce)], trackedOnce) \<and>
   m_depth sampleMessage = DepthObj (Exact 1) (Exact 5) \<and>
   c_depth trackedOnce = Some (Exact 1) \<and> stored trackedOnce = trackedOnce \<and>
   track [(lit ''lotbot-abc123'', trackedOnce)] 2000 clarifyMessage =
     Inr ([(lit ''lotbot-abc123'', trackedTwice)], trackedTwice) \<and>
   c_depth trackedTwice = c_depth trackedOnce \<and> stored trackedTwice = trackedTwice"
proof -
  have b: "m_depth sampleMessage = DepthObj (Exact 1) (Exact 5)"
    by (simp add: sampleMessage_def)
  have k: "keyOf (m_requestId sampleMessage) = lit ''lotbot-abc123''"
    "keyOf (m_requestId clarifyMessage) = lit ''lotbot-abc123''"
    by (simp_all add: sampleMessage_def clarifyMessage_def keyOf_def)
  have one: "c_depth trackedOnce = Some (Exact 1) \<and> stored trackedOnce = trackedOnce"
    using track_depth [OF parse_sampleWire track_sampleMessage] by (simp add: k b)
  have two: "c_depth trackedTwice = c_depth trackedOnce \<and> stored trackedTwice = trackedTwice"
    using track_depth [OF parse_clarifyWire track_clarifyMessage] one by (simp add: k)
  show ?thesis
    using b one two parse_sampleWire parse_clarifyWire track_sampleMessage track_clarifyMessage
    by simp
qed

lemma saveField_statusValid: "statusValid r \<Longrightarrow> statusValid (saveField r k v)"
proof (cases "normalizeKey k \<in> set knownFields")
  case False
  assume "statusValid r"
  then show ?thesis
    using False by (simp add: saveField_unknown statusValid_def)
next
  case True
  assume "statusValid r"
  with knownFields_cases [OF True] show ?thesis
    by (elim disjE) (simp_all add: saveField_from saveField_requestid saveField_task
        saveField_result saveField_context saveField_depth saveField_callback saveField_priority
        saveField_status saveField_question saveField_message statusValid_def)
qed

lemma parse_statusValid:
  assumes "parse rawText = Some m"
  shows "statusValid m"
proof -
  from assms obtain ty to ls r where r: "r = parseFields (initialResult ty to rawText) ls"
    and m: "m = parseDepth r"
    by (rule parse_SomeD)
  have "statusValid r"
    unfolding r
  proof (rule parseFields_inv [where P = statusValid])
    show "statusValid (initialResult ty to rawText)"
      by (simp add: statusValid_def initialResult_def)
  qed (rule saveField_statusValid)
  then show ?thesis
    by (simp add: m statusValid_def)
qed

lemma statusValid_not_timeout:
  "statusValid m \<Longrightarrow>
   (if truthy (m_status m) then text_of (m_status m) else lit ''done'') \<noteq> lit ''timeout''"
  by (auto simp add: statusValid_def truthy_def text_of_def VALID_STATUSES_def
      split: option.splits)

lemma track_timeout_before:
  assumes "statusValid m" "track st now m = Inr (st', conv)"
    and "e \<in> set st'" "c_status (snd e) = lit ''timeout''"
  shows "\<exists>e0 \<in> set st. fst e0 = fst e \<and> c_status (snd e0) = lit ''timeout''"
  using assms(2)
proof (cases rule: track_cases)
  case new
  have "c_status conv \<noteq> lit ''timeout''"
    using new(4) statusValid_not_timeout [OF assms(1)] by simp
  then have "e \<in> set st"
    using assms(3,4) new(2) by (auto simp add: set_insertEntry)
  then show ?thesis
    using assms(4) by auto
next
  case (old c0)
  have c0: "(keyOf (m_requestId m), c0) \<in> set st"
    using old(1) by (simp add: map_of_SomeD)
  show ?thesis
  proof (cases "e \<in> set st")
    case True
    then show ?thesis
      using assms(4) by auto
  next
    case False
    then have e: "e = (keyOf (m_requestId m), stored conv)"
      using assms(3) old(2) by (auto dest: set_updateEntry)
    then have "c_status conv = lit ''timeout''"
      using assms(4) by simp
    then have "c_status c0 = lit ''timeout''"
      using old(4) statusValid_not_timeout [OF assms(1)] by (simp split: if_splits)
    then show ?thesis
      using c0 e by force
  qed
qed

lemma lotbot_key: "\<not> isArrayIndex (lit ''lotbot-abc123'')"
  by (simp add: isArrayIndex_def lit_def isDigit_def)

lemma track_sweptState:
  "track sweptState 1000 sampleMessage =
     Inr (sweptState @ [(lit ''lotbot-abc123'', trackedOnce)], trackedOnce)"
  by (simp add: track_def stored_def sampleMessage_def trackedOnce_def keyOf_def
      sweptState_def objectPrototypeNames_def insertEntry_def lotbot_key orElse_def
      truthy_def Let_def)

lemma track_sweptState_clarify:
  "track (sweptState @ [(lit ''lotbot-abc123'', trackedOnce)]) 2000 clarifyMessage =
     Inr (sweptState @ [(lit ''lotbot-abc123'', trackedTwice)], trackedTwice)"
  by (simp add: track_def stored_def clarifyMessage_def trackedOnce_def trackedTwice_def
      keyOf_def sweptState_def updateEntry_def orElse_def truthy_def Let_def)

text \<open>
  C8. A record gets the status \<open>timeout\<close> from no call of \<open>track\<close> with a message that
  \<open>parse\<close> returned: whatever the state at the start, a record that is timed out after a
  sequence of such calls is the record of a \<open>requestId\<close> that was timed out before the
  first of them. It is \<open>timeout\<close>, which the sweep calls, that sets this status.
\<close>

theorem track_never_timeout:
  assumes "\<forall>tm \<in> set tms. \<exists>rawText. parse rawText = Some (snd tm)"
    "trackAll st tms = Inr st'"
  shows "(\<forall>e \<in> set st'. c_status (snd e) = lit ''timeout'' \<longrightarrow>
       (\<exists>e0 \<in> set st. fst e0 = fst e \<and> c_status (snd e0) = lit ''timeout'')) \<and>
    (\<forall>s requestId reason s' conv.
       timeout s now requestId reason = Inr (s', Some conv) \<longrightarrow> c_status conv = lit ''timeout'')"
proof
  show "\<forall>e \<in> set st'. c_status (snd e) = lit ''timeout'' \<longrightarrow>
       (\<exists>e0 \<in> set st. fst e0 = fst e \<and> c_status (snd e0) = lit ''timeout'')"
    using assms
  proof (induction tms arbitrary: st)
    case Nil
    then show ?case by auto
  next
    case (Cons tm tms)
    obtain t m where tm: "tm = (t, m)" by (cases tm)
    from Cons.prems(2) obtain st1 conv where tr: "track st t m = Inr (st1, conv)"
      and rest: "trackAll st1 tms = Inr st'"
      by (auto simp add: tm split: sum.splits)
    have valid: "statusValid m"
      using Cons.prems(1) parse_statusValid by (auto simp add: tm)
    have "\<forall>tm \<in> set tms. \<exists>rawText. parse rawText = Some (snd tm)"
      using Cons.prems(1) by simp
    then have later: "\<forall>e \<in> set st'. c_status (snd e) = lit ''timeout'' \<longrightarrow>
       (\<exists>e1 \<in> set st1. fst e1 = fst e \<and> c_status (snd e1) = lit ''timeout'')"
      using rest by (rule Cons.IH)
    show ?case
    proof (intro ballI impI)
      fix e
      assume "e \<in> set st'" "c_status (snd e) = lit ''timeout''"
      then obtain e1 where e1: "e1 \<in> set st1" "fst e1 = fst e"
        "c_status (snd e1) = lit ''timeout''"
        using later by blast
      then obtain e0 where "e0 \<in> set st" "fst e0 = fst e1" "c_status (snd e0) = lit ''timeout''"
        using track_timeout_before [OF valid tr e1(1,3)] by blast
      then show "\<exists>e0 \<in> set st. fst e0 = fst e \<and> c_status (snd e0) = lit ''timeout''"
        using e1(2) by auto
    qed
  qed
  show "\<forall>s requestId reason s' conv.
       timeout s now requestId reason = Inr (s', Some conv) \<longrightarrow> c_status conv = lit ''timeout''"
    by (auto simp add: timeout_def Let_def split: option.splits if_splits)
qed

theorem track_never_timeout_witness:
  "parse sampleWire = Some sampleMessage \<and> parse clarifyWire = Some clarifyMessage \<and>
   sweptState = [(lit ''r9'', sampleConversation (lit ''timeout'') 1000 REQUEST)] \<and>
   trackAll sweptState [(1000, sampleMessage), (2000, clarifyMessage)] =
     Inr (sweptState @ [(lit ''lotbot-abc123'', trackedTwice)]) \<and>
   c_status trackedTwice \<noteq> lit ''timeout'' \<and>
   map fst (filter (\<lambda>e. c_status (snd e) = lit ''timeout'')
     (sweptState @ [(lit ''lotbot-abc123'', trackedTwice)])) = [lit ''r9'']"
proof -
  have p: "\<forall>tm \<in> set [(1000 :: int, sampleMessage), (2000, clarifyMessage)].
      \<exists>rawText. parse rawText = Some (snd tm)"
    using parse_sampleWire parse_clarifyWire by auto
  have t: "trackAll sweptState [(1000, sampleMessage), (2000, clarifyMessage)] =
     Inr (sweptState @ [(lit ''lotbot-abc123'', trackedTwice)])"
    by (simp add: track_sweptState track_sweptState_clarify)
  have o: "c_status trackedTwice \<noteq> lit ''timeout''"
    by (simp add: trackedTwice_def)
  have "\<forall>e \<in> set (sweptState @ [(lit ''lotbot-abc123'', trackedTwice)]).
      c_status (snd e) = lit ''timeout'' \<longrightarrow>
      (\<exists>e0 \<in> set sweptState. fst e0 = fst e \<and> c_status (snd e0) = lit ''timeout'')"
    using track_never_timeout [OF p t] by blast
  then have "\<forall>e \<in> set (sweptState @ [(lit ''lotbot-abc123'', trackedTwice)]).
      c_status (snd e) = lit ''timeout'' \<longrightarrow> fst e = lit ''r9''"
    by (auto simp add: sweptState_def)
  then have "map fst (filter (\<lambda>e. c_status (snd e) = lit ''timeout'')
     (sweptState @ [(lit ''lotbot-abc123'', trackedTwice)])) = [lit ''r9'']"
    using o by (simp add: sweptState_def sampleConversation_def)
  then show ?thesis
    using parse_sampleWire parse_clarifyWire t o by (simp add: sweptState_def)
qed

section \<open>Unknown fields\<close>

lemma blockLines_featureWire:
  "blockLines featureWire =
     Some ((lit ''[REQUEST '' @ [ARROW] @ lit '' @Mantis]'') #
           [lit ''From: Lotbot'', lit ''RequestId: lotbot-abc123'',
            lit ''Task: Check the weather in Paris'', lit ''Depth: 1/5''] @
           [lit ''XFeature: v''] @ [])"
  unfolding featureWire_def by (simp add: blockLines_def lit_def trim_def char_class_defs)

lemma parse_featureWire: "parse featureWire = Some featureMessage"
  unfolding parse_def blockLines_featureWire
  by (simp add: parse_defs lit_def char_class_defs featureMessage_def)

text \<open>
  C9 as stated fails: the key of a field is lower-cased when its line is read, before the
  field is saved, so the entry of \<open>meta\<close> is under the lower-case key.
\<close>

theorem meta_key_counterexample:
  "parse featureWire = Some featureMessage \<and>
   m_meta featureMessage (lit ''XFeature'') = None \<and>
   m_meta featureMessage (lit ''xfeature'') = Some (lit ''v'')"
  using parse_featureWire by (simp add: featureMessage_def)

lemma saveField_meta_other:
  "k \<noteq> K \<Longrightarrow> m_meta (saveField r k v) K = m_meta r K"
  by (cases rule: saveField_cases [of r k v]) simp_all

lemma saveField_meta_lower:
  assumes "\<forall>k. m_meta r k \<noteq> None \<longrightarrow> isLowerKey k" "isLowerKey k"
  shows "\<forall>k'. m_meta (saveField r k v) k' \<noteq> None \<longrightarrow> isLowerKey k'"
  using assms by (cases rule: saveField_cases [of r k v]) auto

lemma parseFields_meta_lower:
  "\<forall>k. m_meta (parseFields (initialResult ty to raw) ls) k \<noteq> None \<longrightarrow> isLowerKey k"
  unfolding parseFields_def
proof (rule parseFields_inv2 [where Q = isLowerKey])
  show "\<forall>k. m_meta (initialResult ty to raw) k \<noteq> None \<longrightarrow> isLowerKey k"
    by (simp add: initialResult_def)
  show "\<forall>k. (None :: jsstring option) = Some k \<longrightarrow> isLowerKey k"
    by simp
  show "isLowerKey (toLowerCase key)" if "kvMatch line = Some (key, v)" for line key v
    using that by (intro toLowerCase_alpha kvMatch_key)
qed (rule saveField_meta_lower)

lemma parseFields_meta_value:
  assumes line: "kvMatch line = Some (key, v)"
    and unknown: "normalizeKey (toLowerCase key) \<notin> set knownFields"
    and later: "\<forall>l \<in> set rest. \<forall>key' v'. kvMatch l = Some (key', v') \<longrightarrow>
        toLowerCase key' \<noteq> toLowerCase key"
  shows "m_meta (parseFields r (pre @ [line] @ rest)) (toLowerCase key) =
    Some (trim (joinNL (v # takeWhile (\<lambda>l. kvMatch l = None) rest)))"
proof -
  define K where "K = toLowerCase key"
  define cont where "cont = takeWhile (\<lambda>l. kvMatch l = None) rest"
  define rest' where "rest' = dropWhile (\<lambda>l. kvMatch l = None) rest"
  define X where "X = trim (joinNL (v # cont))"
  have K: "K \<noteq> []"
    using kvMatch_key(1) [OF line] by (simp add: K_def)
  obtain r0 ck0 cv0 where pre: "foldl lineStep (r, None, []) pre = (r0, ck0, cv0)"
    by (cases "foldl lineStep (r, None, []) pre") auto
  define r1 where "r1 = saveCurrent r0 ck0 cv0"
  have rest: "rest = cont @ rest'"
    by (simp add: cont_def rest'_def)
  have cont: "\<forall>l \<in> set cont. kvMatch l = None"
    unfolding cont_def by (auto dest: set_takeWhileD)
  have upto: "foldl lineStep (r, None, []) (pre @ [line] @ cont) = (r1, Some K, v # cont)"
    using foldl_lineStep_continuation [OF cont K, of r1 "[v]"]
    by (simp add: pre lineStep_field [OF line] r1_def K_def)
  have saved: "m_meta (saveField r1 K (joinNL (v # cont))) K = Some X"
    using unknown by (simp add: saveField_unknown K_def [symmetric] X_def)
  have all: "foldl lineStep (r, None, []) (pre @ [line] @ rest) =
      foldl lineStep (r1, Some K, v # cont) rest'"
    using upto by (simp add: rest)
  have "m_meta (parseFields r (pre @ [line] @ rest)) K = Some X"
  proof (cases rest')
    case Nil
    then show ?thesis
      unfolding parseFields_def all using saved K by (simp add: saveCurrent_def)
  next
    case (Cons l' rest'')
    have "kvMatch l' \<noteq> None"
      using Cons hd_dropWhile [of "\<lambda>l. kvMatch l = None" rest] by (simp add: rest'_def)
    then obtain key' v' where l': "kvMatch l' = Some (key', v')"
      by auto
    have sub: "set rest'' \<subseteq> set rest" and mem: "l' \<in> set rest"
      using Cons rest by auto
    have ne: "toLowerCase key' \<noteq> K"
      using later mem l' by (auto simp add: K_def)
    have step: "foldl lineStep (r1, Some K, v # cont) rest' =
        foldl lineStep (saveField r1 K (joinNL (v # cont)), Some (toLowerCase key'), [v']) rest''"
      using K by (simp add: Cons lineStep_field [OF l'] saveCurrent_def)
    have "m_meta (case foldl lineStep
            (saveField r1 K (joinNL (v # cont)), Some (toLowerCase key'), [v']) rest'' of
          (r', ck', cv') \<Rightarrow> saveCurrent r' ck' cv') K = Some X"
    proof (rule parseFields_inv2 [where P = "\<lambda>x. m_meta x K = Some X" and Q = "\<lambda>k. k \<noteq> K"])
      show "m_meta (saveField r1 K (joinNL (v # cont))) K = Some X"
        by (rule saved)
      show "\<forall>k. Some (toLowerCase key') = Some k \<longrightarrow> k \<noteq> K"
        using ne by simp
      show "toLowerCase k \<noteq> K" if "l \<in> set rest''" "kvMatch l = Some (k, w)" for l k w
        using that later sub by (auto simp add: K_def)
      show "m_meta (saveField x k w) K = Some X" if "m_meta x K = Some X" "k \<noteq> K" for x k w
        using that by (simp add: saveField_meta_other)
    qed
    then show ?thesis
      unfolding parseFields_def all step by simp
  qed
  then show ?thesis
    by (simp add: K_def X_def cont_def)
qed

text \<open>
  C9, amended. Let a line after the header read \<open>Key: value\<close>, with a key that is not a
  known field once lower-cased and stripped of hyphens and underscores, and let no later
  line give the same key in any casing. Then the accepted message stores under the
  lower-cased key the trimmed value, which is the value on the line joined by newlines
  with the continuation lines that follow it. Under the key as written there is no entry
  when it has an upper-case letter.
\<close>

theorem meta_key_lowercase:
  assumes "parse rawText = Some m"
    and "blockLines rawText = Some (l0 # pre @ [line] @ rest)"
    and "kvMatch line = Some (key, v)"
    and "normalizeKey (toLowerCase key) \<notin> set knownFields"
    and "\<forall>l \<in> set rest. \<forall>key' v'. kvMatch l = Some (key', v') \<longrightarrow>
        toLowerCase key' \<noteq> toLowerCase key"
  shows "m_meta m (toLowerCase key) =
      Some (trim (joinNL (v # takeWhile (\<lambda>l. kvMatch l = None) rest))) \<and>
    (toLowerCase key \<noteq> key \<longrightarrow> m_meta m key = None)"
proof -
  from assms(1) obtain l0' ls ty to r where bl: "blockLines rawText = Some (l0' # ls)"
    and r: "r = parseFields (initialResult ty to rawText) ls" and m: "m = parseDepth r"
    by (rule parse_SomeD)
  have ls: "ls = pre @ [line] @ rest"
    using bl assms(2) by simp
  have "m_meta r (toLowerCase key) =
      Some (trim (joinNL (v # takeWhile (\<lambda>l. kvMatch l = None) rest)))"
    unfolding r ls using assms(3,4,5) by (rule parseFields_meta_value)
  moreover have "m_meta r key = None" if "toLowerCase key \<noteq> key"
  proof -
    have "\<not> isLowerKey key"
      using that toLowerCase_lower by auto
    then show ?thesis
      using parseFields_meta_lower [of ty to rawText ls] by (auto simp add: r)
  qed
  ultimately show ?thesis
    by (simp add: m)
qed

theorem meta_key_lowercase_witness:
  "parse featureWire = Some featureMessage \<and>
   kvMatch (lit ''XFeature: v'') = Some (lit ''XFeature'', lit ''v'') \<and>
   toLowerCase (lit ''XFeature'') = lit ''xfeature'' \<and>
   normalizeKey (lit ''xfeature'') \<notin> set knownFields \<and>
   m_meta featureMessage (lit ''xfeature'') = Some (lit ''v'') \<and>
   m_meta featureMessage (lit ''XFeature'') = None"
proof -
  have kv: "kvMatch (lit ''XFeature: v'') = Some (lit ''XFeature'', lit ''v'')"
    by (simp add: kvMatch_def lit_def char_class_defs)
  have low: "toLowerCase (lit ''XFeature'') = lit ''xfeature''"
    by (simp add: toLowerCase_def lowerCaseUnit_def lit_def)
  have un: "normalizeKey (toLowerCase (lit ''XFeature'')) \<notin> set knownFields"
    unfolding low by (simp add: normalizeKey_def toLowerCase_def lowerCaseUnit_def knownFields_def lit_def)
  have later: "\<forall>l \<in> set []. \<forall>key' v'. kvMatch l = Some (key', v') \<longrightarrow>
        toLowerCase key' \<noteq> toLowerCase (lit ''XFeature'')"
    by simp
  have tr: "trim (lit ''v'') = lit ''v''"
    by (simp add: trim_def lit_def isSpace_def)
  show ?thesis
    using meta_key_lowercase [OF parse_featureWire blockLines_featureWire kv un later]
      parse_featureWire kv un
    by (simp add: low tr)
qed

section \<open>From the wire text back to the fields\<close>

lemma takeWhile_until:
  "x \<notin> set body \<Longrightarrow> takeWhile (\<lambda>y. y \<noteq> x) (body @ x # rest) = body"
  by (induction body) auto

lemma dropWhile_until:
  "x \<notin> set body \<Longrightarrow> dropWhile (\<lambda>y. y \<noteq> x) (body @ x # rest) = x # rest"
  by (induction body) auto

lemma codeBlockMatch_fenced:
  assumes "body \<noteq> []" "BACKTICK \<notin> set body"
  shows "codeBlockMatch (lit ''```'' @ body @ lit ''```'') = Some body"
proof -
  have l: "lit ''```'' = [BACKTICK, BACKTICK, BACKTICK]"
    by (simp add: lit_def BACKTICK_def)
  show ?thesis
    unfolding l using assms
    by (simp add: takeWhile_until [OF assms(2)] dropWhile_until [OF assms(2)])
qed

lemma concat_lines_joinNL:
  "ls \<noteq> [] \<Longrightarrow> concat (map (\<lambda>l. l @ [NL]) ls) = joinNL ls @ [NL]"
  by (induction ls rule: joinNL.induct) simp_all

lemma joinNL_Nil_iff: "ls \<noteq> [] \<Longrightarrow> hd ls \<noteq> [] \<Longrightarrow> joinNL ls \<noteq> []"
  by (induction ls rule: joinNL.induct) simp_all

lemma hd_joinNL: "ls \<noteq> [] \<Longrightarrow> hd ls \<noteq> [] \<Longrightarrow> hd (joinNL ls) = hd (hd ls)"
  by (induction ls rule: joinNL.induct) simp_all

lemma joinNL_last_Nil: "ls \<noteq> [] \<Longrightarrow> last ls \<noteq> [] \<Longrightarrow> joinNL ls \<noteq> []"
  by (induction ls rule: joinNL.induct) simp_all

lemma last_joinNL: "ls \<noteq> [] \<Longrightarrow> last ls \<noteq> [] \<Longrightarrow> last (joinNL ls) = last (last ls)"
proof (induction ls rule: joinNL.induct)
  case (3 x y ys)
  then have "joinNL (y # ys) \<noteq> []"
    by (intro joinNL_last_Nil) simp_all
  then show ?case
    using 3 by simp
qed simp_all

lemma set_joinNL_backtick:
  "\<forall>l \<in> set ls. BACKTICK \<notin> set l \<Longrightarrow> BACKTICK \<notin> set (joinNL ls)"
  by (induction ls rule: joinNL.induct) (simp_all add: NL_def BACKTICK_def)

lemma splitNL_line: "NL \<notin> set l \<Longrightarrow> splitNL l = [l]"
  by (induction l) auto

lemma splitNL_append: "NL \<notin> set l \<Longrightarrow> splitNL (l @ NL # rest) = l # splitNL rest"
  by (induction l) auto

lemma splitNL_joinNL:
  "ls \<noteq> [] \<Longrightarrow> \<forall>l \<in> set ls. NL \<notin> set l \<Longrightarrow> splitNL (joinNL ls) = ls"
  by (induction ls rule: joinNL.induct) (simp_all add: splitNL_line splitNL_append)

lemma splitNL_Nil [simp]: "splitNL s \<noteq> []"
  by (induction s) (auto split: list.splits)

lemma concat_splitNL: "concat (map (\<lambda>x. x @ [NL]) (splitNL s)) = s @ [NL]"
  by (induction s) (auto split: list.splits)

lemma joinNL_Cons: "joinNL ((c # l) # ls) = c # joinNL (l # ls)"
  by (cases ls) simp_all

lemma joinNL_Nil_Cons: "ls \<noteq> [] \<Longrightarrow> joinNL ([] # ls) = NL # joinNL ls"
  by (cases ls) simp_all

lemma joinNL_splitNL: "joinNL (splitNL s) = s"
  by (induction s) (auto simp add: joinNL_Cons joinNL_Nil_Cons split: list.splits)

lemma splitNL_no_NL: "l \<in> set (splitNL s) \<Longrightarrow> NL \<notin> set l"
  by (induction s arbitrary: l) (auto split: list.splits if_splits)

lemma splitNL_subset: "l \<in> set (splitNL s) \<Longrightarrow> set l \<subseteq> set s"
proof (induction s arbitrary: l)
  case Nil
  then show ?case by simp
next
  case (Cons c cs)
  obtain x xs where x: "splitNL cs = x # xs"
    by (cases "splitNL cs") simp_all
  have "set x \<subseteq> set cs" "\<forall>y \<in> set xs. set y \<subseteq> set cs"
    using Cons.IH by (simp_all add: x)
  then show ?case
    using Cons.prems by (auto simp add: x split: if_splits)
qed

lemma last_splitNL:
  "s \<noteq> [] \<Longrightarrow> last s \<noteq> NL \<Longrightarrow> last (splitNL s) \<noteq> [] \<and> last (last (splitNL s)) = last s"
  by (induction s) (auto split: list.splits if_splits)

lemma splitNL_prefix:
  "NL \<notin> set p \<Longrightarrow> splitNL (p @ v) = (p @ hd (splitNL v)) # tl (splitNL v)"
  by (induction p) auto

lemma hd_splitNL:
  "v \<noteq> [] \<Longrightarrow> hd v \<noteq> NL \<Longrightarrow> hd (splitNL v) \<noteq> [] \<and> hd (hd (splitNL v)) = hd v"
  by (cases v) (auto split: list.splits)

lemma wire_flat: "wire ls = wire (concat (map splitNL ls))"
proof -
  have "concat (map (\<lambda>l. l @ [NL]) (concat (map splitNL ls))) = concat (map (\<lambda>l. l @ [NL]) ls)"
    by (induction ls) (simp_all add: concat_splitNL)
  then show ?thesis
    by (simp add: wire_def)
qed

lemma trim_between_newlines:
  assumes "X \<noteq> []" "\<not> isSpace (hd X)" "\<not> isSpace (last X)"
  shows "trim (NL # X @ [NL]) = X"
proof -
  have nl: "isSpace NL"
    by (simp add: isSpace_def NL_def)
  have a: "dropWhile isSpace (NL # X @ [NL]) = X @ [NL]"
    using assms(1,2) nl by (cases X) simp_all
  have "dropWhile isSpace (rev X) = rev X"
    using assms(1,3) by (cases X rule: rev_cases) simp_all
  then have b: "dropWhile isSpace (rev (X @ [NL])) = rev X"
    using nl by simp
  show ?thesis
    by (simp only: trim_def a b rev_rev_ident)
qed

lemma trim_wireSafe: "wireSafe v \<Longrightarrow> trim v = v"
proof -
  assume w: "wireSafe v"
  then have a: "dropWhile isSpace v = v"
    by (cases v) (simp_all add: wireSafe_def)
  have "dropWhile isSpace (rev v) = rev v"
    using w by (cases v rule: rev_cases) (simp_all add: wireSafe_def)
  then show ?thesis
    by (simp add: trim_def a)
qed

lemma wireSafe_line:
  assumes "v \<noteq> []" "\<not> isSpace (hd v)" "\<not> isSpace (last v)"
    "list_all (\<lambda>c. c \<noteq> BACKTICK \<and> \<not> isLineTerminator c) v"
  shows "wireSafe v"
proof -
  have "NL \<notin> set v"
    using assms(4) by (auto simp add: list_all_iff isLineTerminator_def NL_def)
  then have "splitNL v = [v]"
    by (rule splitNL_line)
  then show ?thesis
    using assms by (auto simp add: wireSafe_def list_all_iff list_ex_iff)
qed

lemma blockLines_wire:
  assumes "ls \<noteq> []" "\<forall>l \<in> set ls. BACKTICK \<notin> set l \<and> NL \<notin> set l"
    "hd ls \<noteq> []" "\<not> isSpace (hd (hd ls))" "last ls \<noteq> []" "\<not> isSpace (last (last ls))"
  shows "blockLines (wire ls) = Some ls"
proof -
  define body where "body = NL # joinNL ls @ [NL]"
  have w: "wire ls = lit ''```'' @ body @ lit ''```''"
    by (simp add: wire_def body_def concat_lines_joinNL [OF assms(1)])
  have "BACKTICK \<notin> set body"
    using set_joinNL_backtick [of ls] assms(2) by (simp add: body_def NL_def BACKTICK_def)
  then have cb: "codeBlockMatch (wire ls) = Some body"
    unfolding w by (intro codeBlockMatch_fenced) (simp_all add: body_def)
  have tr: "trim body = joinNL ls"
    unfolding body_def using assms
    by (intro trim_between_newlines) (simp_all add: joinNL_Nil_iff hd_joinNL last_joinNL)
  have "wire ls \<noteq> []"
    by (simp add: w)
  then show ?thesis
    using assms(1,2) by (simp add: blockLines_def cb tr splitNL_joinNL)
qed

lemma takeWhile_all:
  "list_all P xs \<Longrightarrow> \<not> P y \<Longrightarrow> takeWhile P (xs @ y # ys) = xs"
  by (induction xs) auto

lemma dropWhile_all:
  "list_all P xs \<Longrightarrow> \<not> P y \<Longrightarrow> dropWhile P (xs @ y # ys) = y # ys"
  by (induction xs) auto

lemma typeName_word: "list_all isWord (typeName t)" "typeName t \<noteq> []"
  by (cases t; simp add: typeName_def lit_def isWord_def isAlpha_def isDigit_def)+

lemma validType_typeName: "validType (typeName t) = Some t"
  by (cases t) (simp_all add: validType_def VALID_TYPES_def typeName_def)

lemma headerMatch_headerLine:
  assumes "to \<noteq> []" "list_all (\<lambda>c. \<not> isSpace c) to"
  shows "headerMatch (headerLine t to) = Some (typeName t, to)"
proof -
  have h: "headerLine t to = 91 # (typeName t @ 32 # ARROW # 32 # 64 # to @ [93])"
    by (simp add: headerLine_def)
  have sp: "\<not> isWord 32" "isSpace 32" "\<not> isSpace ARROW" "\<not> isSpace 64" "\<not> isSpace 93"
    by (simp_all add: isWord_def isAlpha_def isDigit_def isSpace_def ARROW_def)
  have tw: "takeWhile isWord (typeName t @ 32 # ARROW # 32 # 64 # to @ [93]) = typeName t"
    using typeName_word(1) sp(1) by (rule takeWhile_all)
  have dw: "dropWhile isWord (typeName t @ 32 # ARROW # 32 # 64 # to @ [93]) =
      32 # ARROW # 32 # 64 # to @ [93]"
    using typeName_word(1) sp(1) by (rule dropWhile_all)
  have len: "2 \<le> length (to @ [93])"
    using assms(1) by (cases to) simp_all
  show ?thesis
    unfolding h headerMatch_def
    using assms(2) len by (simp add: tw dw sp typeName_word(2) Let_def butlast_append)
qed

lemma alpha_plain: "isAlpha c \<Longrightarrow> c \<noteq> BACKTICK \<and> c \<noteq> NL"
  by (auto simp add: isAlpha_def BACKTICK_def NL_def)

lemma fieldLine_split:
  assumes "list_all isAlpha (lit k)"
  shows "splitNL (fieldLine k v) = fieldLine k (hd (splitNL v)) # tl (splitNL v)"
proof -
  have "NL \<notin> set (lit k @ [58, 32])"
    using assms alpha_plain by (auto simp add: list_all_iff NL_def)
  then have "splitNL ((lit k @ [58, 32]) @ v) =
      ((lit k @ [58, 32]) @ hd (splitNL v)) # tl (splitNL v)"
    by (rule splitNL_prefix)
  then show ?thesis
    by (simp add: fieldLine_def)
qed

lemma kvMatch_fieldLine:
  assumes "lit k \<noteq> []" "list_all isAlpha (lit k)" "wireSafe v"
  shows "kvMatch (fieldLine k (hd (splitNL v))) = Some (lit k, hd (splitNL v))"
proof -
  define l where "l = hd (splitNL v)"
  have f: "fieldLine k l = lit k @ 58 # 32 # l"
    by (simp add: fieldLine_def)
  have c: "\<not> isAlpha 58" "isSpace 32"
    by (simp_all add: isAlpha_def isSpace_def)
  have tw: "takeWhile isAlpha (lit k @ 58 # 32 # l) = lit k"
    using assms(2) c(1) by (rule takeWhile_all)
  have dw: "dropWhile isAlpha (lit k @ 58 # 32 # l) = 58 # 32 # l"
    using assms(2) c(1) by (rule dropWhile_all)
  have v: "v \<noteq> []" "\<not> isSpace (hd v)"
    using assms(3) by (simp_all add: wireSafe_def)
  have "isSpace NL"
    by (simp add: isSpace_def NL_def)
  then have "hd v \<noteq> NL"
    using v(2) by auto
  then have "l \<noteq> []" "hd l = hd v"
    using hd_splitNL [OF v(1)] by (simp_all add: l_def)
  then have d: "dropWhile isSpace l = l"
    using v(2) by (cases l) simp_all
  have lt: "\<not> list_ex isLineTerminator l"
    using assms(3) by (simp add: wireSafe_def l_def)
  show ?thesis
    unfolding l_def [symmetric] f kvMatch_def using assms(1) by (simp add: tw dw c d lt Let_def)
qed

lemma parseFields_fieldLines_aux:
  assumes "\<forall>kv \<in> set kvs. lit (fst kv) \<noteq> [] \<and> list_all isAlpha (lit (fst kv)) \<and> wireSafe (snd kv)"
  shows "(case foldl lineStep (r, ck, cv)
            (concat (map (\<lambda>kv. splitNL (fieldLine (fst kv) (snd kv))) kvs)) of
          (r', ck', cv') \<Rightarrow> saveCurrent r' ck' cv') = saveAll (saveCurrent r ck cv) kvs"
  using assms
proof (induction kvs arbitrary: r ck cv)
  case Nil
  then show ?case by (simp add: saveAll_def)
next
  case (Cons kv kvs)
  define K where "K = toLowerCase (lit (fst kv))"
  define r1 where "r1 = saveCurrent r ck cv"
  have good: "lit (fst kv) \<noteq> []" "list_all isAlpha (lit (fst kv))" "wireSafe (snd kv)"
    using Cons.prems by simp_all
  have sp: "splitNL (fieldLine (fst kv) (snd kv)) =
      fieldLine (fst kv) (hd (splitNL (snd kv))) # tl (splitNL (snd kv))"
    using good(2) by (rule fieldLine_split)
  have m: "kvMatch (fieldLine (fst kv) (hd (splitNL (snd kv)))) =
      Some (lit (fst kv), hd (splitNL (snd kv)))"
    using good by (rule kvMatch_fieldLine)
  have k: "K \<noteq> []"
    using good(1) by (simp add: K_def)
  have cont: "\<forall>l \<in> set (tl (splitNL (snd kv))). kvMatch l = None"
    using good(3) by (simp add: wireSafe_def list_all_iff)
  have "foldl lineStep (r, ck, cv) (splitNL (fieldLine (fst kv) (snd kv))) =
      (r1, Some K, [hd (splitNL (snd kv))] @ tl (splitNL (snd kv)))"
    unfolding sp foldl_Cons lineStep_field [OF m] K_def [symmetric] r1_def [symmetric]
    using cont k by (rule foldl_lineStep_continuation)
  then have one: "foldl lineStep (r, ck, cv) (splitNL (fieldLine (fst kv) (snd kv))) =
      (r1, Some K, splitNL (snd kv))"
    by simp
  have s: "saveCurrent r1 (Some K) (splitNL (snd kv)) = saveField r1 K (snd kv)"
    using k by (simp add: saveCurrent_def joinNL_splitNL)
  have "(case foldl lineStep (r1, Some K, splitNL (snd kv))
            (concat (map (\<lambda>kv. splitNL (fieldLine (fst kv) (snd kv))) kvs)) of
          (r', ck', cv') \<Rightarrow> saveCurrent r' ck' cv') =
        saveAll (saveCurrent r1 (Some K) (splitNL (snd kv))) kvs"
    using Cons.prems by (intro Cons.IH) simp
  then show ?case
    unfolding K_def r1_def
    by (simp add: one [unfolded K_def r1_def] s [unfolded K_def r1_def] saveAll_def)
qed

lemma parseFields_fieldLines:
  assumes "\<forall>kv \<in> set kvs. lit (fst kv) \<noteq> [] \<and> list_all isAlpha (lit (fst kv)) \<and> wireSafe (snd kv)"
  shows "parseFields r (concat (map (\<lambda>kv. splitNL (fieldLine (fst kv) (snd kv))) kvs)) =
    saveAll r kvs"
  using parseFields_fieldLines_aux [OF assms, of r None "[]"]
  by (simp add: parseFields_def saveCurrent_def)

lemma parse_accept:
  assumes "blockLines w = Some (l0 # ls)" "headerMatch l0 = Some (tn, to)"
    "validType tn = Some ty" "r = parseFields (initialResult ty to w) ls"
    "truthy (m_from r)" "truthy (m_requestId r)"
    "ty = REQUEST \<or> ty = HANDOFF \<longrightarrow> truthy (m_task r)"
    "ty = RESPONSE \<longrightarrow> truthy (m_result r) \<or> truthy (m_status r)"
    "ty = CLARIFY \<longrightarrow> truthy (m_question r)"
    "ty = BROADCAST \<longrightarrow> truthy (m_message r)"
  shows "parse w = Some (parseDepth r)"
proof -
  have "parse w =
     (if \<not> truthy (m_from r) \<or> \<not> truthy (m_requestId r) then None
      else if ty = REQUEST \<and> \<not> truthy (m_task (parseDepth r)) then None
      else if ty = RESPONSE \<and> \<not> truthy (m_result (parseDepth r))
              \<and> \<not> truthy (m_status (parseDepth r)) then None
      else if ty = CLARIFY \<and> \<not> truthy (m_question (parseDepth r)) then None
      else if ty = HANDOFF \<and> \<not> truthy (m_task (parseDepth r)) then None
      else if ty = BROADCAST \<and> \<not> truthy (m_message (parseDepth r)) then None
      else Some (parseDepth r))"
    unfolding parse_def assms(4)
    by (simp only: assms(1,2,3) option.case list.case prod.case Let_def)
  then show ?thesis
    using assms(5-10) by simp
qed

lemma numToString_digits: "numToString n \<noteq> [] \<and> list_all isDigit (numToString n)"
proof (induction n rule: numToString.induct)
  case (1 n)
  show ?case
  proof (cases "n < 10")
    case True
    then show ?thesis
      by (subst (1 2) numToString.simps) (simp add: isDigit_def)
  next
    case False
    have "n mod 10 < 10" by simp
    then have "isDigit (48 + n mod 10)"
      unfolding isDigit_def by linarith
    then show ?thesis
      using False 1 by (subst (1 2) numToString.simps) simp
  qed
qed

lemma digit_plain:
  "isDigit c \<Longrightarrow> \<not> isSpace c \<and> c \<noteq> BACKTICK \<and> \<not> isLineTerminator c \<and> c \<noteq> NL"
  by (auto simp add: isDigit_def isSpace_def BACKTICK_def isLineTerminator_def NL_def)

lemma wireSafe_depthText: "wireSafe (depthText d)"
proof -
  define a where "a = numToString (d_current d)"
  define b where "b = numToString (d_max d)"
  have a: "a \<noteq> []" "list_all isDigit a" and b: "b \<noteq> []" "list_all isDigit b"
    using numToString_digits by (simp_all add: a_def b_def)
  have "isDigit (hd a)" "isDigit (last b)"
    using a b by (simp_all add: list_all_iff)
  then have e: "\<not> isSpace (hd a)" "\<not> isSpace (last b)"
    using digit_plain by blast+
  have "list_all (\<lambda>c. c \<noteq> BACKTICK \<and> \<not> isLineTerminator c) (a @ [47] @ b)"
    using a(2) b(2) digit_plain
    by (auto simp add: list_all_iff BACKTICK_def isLineTerminator_def)
  moreover have "a @ [47] @ b \<noteq> []" "\<not> isSpace (hd (a @ [47] @ b))"
    "\<not> isSpace (last (a @ [47] @ b))"
    using a(1) b(1) e by simp_all
  ultimately have "wireSafe (a @ [47] @ b)"
    by (intro wireSafe_line)
  then show ?thesis
    by (simp add: depthText_def a_def b_def)
qed

section \<open>Round trip: build, then parse\<close>

lemma wireKey_facts:
  "lit ''From'' \<noteq> []" "list_all isAlpha (lit ''From'')"
  "lit ''RequestId'' \<noteq> []" "list_all isAlpha (lit ''RequestId'')"
  "lit ''Task'' \<noteq> []" "list_all isAlpha (lit ''Task'')"
  "lit ''Result'' \<noteq> []" "list_all isAlpha (lit ''Result'')"
  "lit ''Context'' \<noteq> []" "list_all isAlpha (lit ''Context'')"
  "lit ''Depth'' \<noteq> []" "list_all isAlpha (lit ''Depth'')"
  "lit ''Callback'' \<noteq> []" "list_all isAlpha (lit ''Callback'')"
  "lit ''Priority'' \<noteq> []" "list_all isAlpha (lit ''Priority'')"
  "lit ''Status'' \<noteq> []" "list_all isAlpha (lit ''Status'')"
  "lit ''Question'' \<noteq> []" "list_all isAlpha (lit ''Question'')"
  "lit ''Message'' \<noteq> []" "list_all isAlpha (lit ''Message'')"
  by (simp_all add: lit_def isAlpha_def)

lemma wireKey_norm:
  "normalizeKey (toLowerCase (lit ''From'')) = lit ''from''"
  "normalizeKey (toLowerCase (lit ''RequestId'')) = lit ''requestid''"
  "normalizeKey (toLowerCase (lit ''Task'')) = lit ''task''"
  "normalizeKey (toLowerCase (lit ''Result'')) = lit ''result''"
  "normalizeKey (toLowerCase (lit ''Context'')) = lit ''context''"
  "normalizeKey (toLowerCase (lit ''Depth'')) = lit ''depth''"
  "normalizeKey (toLowerCase (lit ''Callback'')) = lit ''callback''"
  "normalizeKey (toLowerCase (lit ''Priority'')) = lit ''priority''"
  "normalizeKey (toLowerCase (lit ''Status'')) = lit ''status''"
  "normalizeKey (toLowerCase (lit ''Question'')) = lit ''question''"
  "normalizeKey (toLowerCase (lit ''Message'')) = lit ''message''"
  by (simp_all add: normalizeKey_def toLowerCase_def lowerCaseUnit_def lit_def)

lemma save_From:
  "wireSafe v \<Longrightarrow> saveField r (toLowerCase (lit ''From'')) v = r\<lparr>m_from := Some v\<rparr>"
  by (simp add: saveField_from wireKey_norm trim_wireSafe)

lemma save_RequestId:
  "wireSafe v \<Longrightarrow> saveField r (toLowerCase (lit ''RequestId'')) v = r\<lparr>m_requestId := Some v\<rparr>"
  by (simp add: saveField_requestid wireKey_norm trim_wireSafe)

lemma save_Task:
  "wireSafe v \<Longrightarrow> saveField r (toLowerCase (lit ''Task'')) v = r\<lparr>m_task := Some v\<rparr>"
  by (simp add: saveField_task wireKey_norm trim_wireSafe)

lemma save_Result:
  "wireSafe v \<Longrightarrow> saveField r (toLowerCase (lit ''Result'')) v = r\<lparr>m_result := Some v\<rparr>"
  by (simp add: saveField_result wireKey_norm trim_wireSafe)

lemma save_Context:
  "wireSafe v \<Longrightarrow> saveField r (toLowerCase (lit ''Context'')) v = r\<lparr>m_context := Some v\<rparr>"
  by (simp add: saveField_context wireKey_norm trim_wireSafe)

lemma save_Depth:
  "wireSafe v \<Longrightarrow> saveField r (toLowerCase (lit ''Depth'')) v = r\<lparr>m_depth := DepthText v\<rparr>"
  by (simp add: saveField_depth wireKey_norm trim_wireSafe)

lemma save_Callback:
  "wireSafe v \<Longrightarrow> saveField r (toLowerCase (lit ''Callback'')) v = r\<lparr>m_callback := Some v\<rparr>"
  by (simp add: saveField_callback wireKey_norm trim_wireSafe)

lemma save_Priority:
  "wireSafe v \<Longrightarrow> saveField r (toLowerCase (lit ''Priority'')) v = r\<lparr>m_priority := (if v \<in> set VALID_PRIORITIES then Some v else None)\<rparr>"
  by (simp add: saveField_priority wireKey_norm trim_wireSafe)

lemma save_Status:
  "wireSafe v \<Longrightarrow> saveField r (toLowerCase (lit ''Status'')) v = r\<lparr>m_status := (if v \<in> set VALID_STATUSES then Some v else None)\<rparr>"
  by (simp add: saveField_status wireKey_norm trim_wireSafe)

lemma save_Question:
  "wireSafe v \<Longrightarrow> saveField r (toLowerCase (lit ''Question'')) v = r\<lparr>m_question := Some v\<rparr>"
  by (simp add: saveField_question wireKey_norm trim_wireSafe)

lemma save_Message:
  "wireSafe v \<Longrightarrow> saveField r (toLowerCase (lit ''Message'')) v = r\<lparr>m_message := Some v\<rparr>"
  by (simp add: saveField_message wireKey_norm trim_wireSafe)

lemmas save_wireKey = save_From save_RequestId save_Task save_Result save_Context save_Depth
  save_Callback save_Priority save_Status save_Question save_Message

lemma saveAll_simps [simp]:
  "saveAll r [] = r"
  "saveAll r (kv # kvs) = saveAll (saveField r (toLowerCase (lit (fst kv))) (snd kv)) kvs"
  "saveAll r (xs @ ys) = saveAll (saveAll r xs) ys"
  by (simp_all add: saveAll_def)

lemma saveAll_frame:
  assumes "\<forall>kv \<in> set kvs.
      (fst kv = ''Context'' \<or> fst kv = ''Depth'' \<or> fst kv = ''Callback'' \<or> fst kv = ''Priority'') \<and>
      wireSafe (snd kv)"
  shows "m_type (saveAll r kvs) = m_type r \<and> m_to (saveAll r kvs) = m_to r \<and>
    m_from (saveAll r kvs) = m_from r \<and> m_requestId (saveAll r kvs) = m_requestId r \<and>
    m_task (saveAll r kvs) = m_task r \<and> m_status (saveAll r kvs) = m_status r \<and>
    m_result (saveAll r kvs) = m_result r \<and> m_question (saveAll r kvs) = m_question r \<and>
    m_message (saveAll r kvs) = m_message r"
  using assms
proof (induction kvs arbitrary: r)
  case Nil
  then show ?case by simp
next
  case (Cons kv kvs)
  have k: "fst kv = ''Context'' \<or> fst kv = ''Depth'' \<or> fst kv = ''Callback'' \<or> fst kv = ''Priority''"
    and v: "wireSafe (snd kv)"
    using Cons.prems by simp_all
  have rest: "\<forall>kv \<in> set kvs.
      (fst kv = ''Context'' \<or> fst kv = ''Depth'' \<or> fst kv = ''Callback'' \<or> fst kv = ''Priority'') \<and>
      wireSafe (snd kv)"
    using Cons.prems by simp
  from k show ?case
    by (elim disjE) (simp_all add: Cons.IH [OF rest] save_wireKey v)
qed

lemma word_plain: "isWord c \<Longrightarrow> c \<noteq> BACKTICK \<and> c \<noteq> NL"
  by (auto simp add: isWord_def isAlpha_def isDigit_def BACKTICK_def NL_def)

lemma fieldLine_plain:
  assumes "list_all isAlpha (lit k)" "wireSafe v"
  shows "BACKTICK \<notin> set (fieldLine k v)" "fieldLine k v \<noteq> []"
    "last (fieldLine k v) = last v" "last (fieldLine k v) \<noteq> NL"
proof -
  have v: "v \<noteq> []" "BACKTICK \<notin> set v" "\<not> isSpace (last v)"
    using assms(2) by (simp_all add: wireSafe_def)
  have k: "BACKTICK \<notin> set (lit k)"
    using assms(1) alpha_plain by (auto simp add: list_all_iff)
  show "BACKTICK \<notin> set (fieldLine k v)"
    using v k by (simp add: fieldLine_def BACKTICK_def)
  show "fieldLine k v \<noteq> []" and l: "last (fieldLine k v) = last v"
    using v(1) by (simp_all add: fieldLine_def)
  have "isSpace NL"
    by (simp add: isSpace_def NL_def)
  then show "last (fieldLine k v) \<noteq> NL"
    using v(3) l by auto
qed

lemma headerLine_plain:
  assumes "list_all (\<lambda>c. \<not> isSpace c \<and> c \<noteq> BACKTICK) to"
  shows "BACKTICK \<notin> set (headerLine t to)" "NL \<notin> set (headerLine t to)"
    "headerLine t to \<noteq> []" "\<not> isSpace (hd (headerLine t to))"
proof -
  have ty: "BACKTICK \<notin> set (typeName t)" "NL \<notin> set (typeName t)"
    using typeName_word(1) [of t] word_plain by (auto simp add: list_all_iff)
  have "isSpace NL"
    by (simp add: isSpace_def NL_def)
  then have to: "BACKTICK \<notin> set to" "NL \<notin> set to"
    using assms by (auto simp add: list_all_iff)
  show "BACKTICK \<notin> set (headerLine t to)" "NL \<notin> set (headerLine t to)"
    using ty to by (simp_all add: headerLine_def BACKTICK_def NL_def ARROW_def)
  show "headerLine t to \<noteq> []" "\<not> isSpace (hd (headerLine t to))"
    by (simp_all add: headerLine_def isSpace_def)
qed

lemma parse_wire:
  assumes to: "to \<noteq> []" "list_all (\<lambda>c. \<not> isSpace c \<and> c \<noteq> BACKTICK) to"
    and kvs: "kvs \<noteq> []"
      "\<forall>kv \<in> set kvs. lit (fst kv) \<noteq> [] \<and> list_all isAlpha (lit (fst kv)) \<and> wireSafe (snd kv)"
    and w: "w = wire (headerLine t to # map (\<lambda>kv. fieldLine (fst kv) (snd kv)) kvs)"
    and r: "r = saveAll (initialResult t to w) kvs"
    and acc: "truthy (m_from r)" "truthy (m_requestId r)"
      "t = REQUEST \<or> t = HANDOFF \<longrightarrow> truthy (m_task r)"
      "t = RESPONSE \<longrightarrow> truthy (m_result r) \<or> truthy (m_status r)"
      "t = CLARIFY \<longrightarrow> truthy (m_question r)"
      "t = BROADCAST \<longrightarrow> truthy (m_message r)"
  shows "parse w = Some (parseDepth r)"
proof -
  define ls where "ls = concat (map (\<lambda>kv. splitNL (fieldLine (fst kv) (snd kv))) kvs)"
  have "splitNL (headerLine t to) = [headerLine t to]"
    using headerLine_plain(2) [OF to(2)] by (rule splitNL_line)
  then have flat: "w = wire (headerLine t to # ls)"
    unfolding w ls_def
    by (subst wire_flat) (simp add: comp_def)
  have fl: "BACKTICK \<notin> set l \<and> NL \<notin> set l" if "l \<in> set ls" for l
  proof -
    from that obtain kv where kv: "kv \<in> set kvs" "l \<in> set (splitNL (fieldLine (fst kv) (snd kv)))"
      by (auto simp add: ls_def)
    have "BACKTICK \<notin> set (fieldLine (fst kv) (snd kv))"
      using kvs(2) kv(1) by (intro fieldLine_plain(1)) auto
    then show ?thesis
      using splitNL_subset [OF kv(2)] splitNL_no_NL [OF kv(2)] by auto
  qed
  then have lines: "\<forall>l \<in> set (headerLine t to # ls). BACKTICK \<notin> set l \<and> NL \<notin> set l"
    using headerLine_plain(1,2) [OF to(2)] by auto
  obtain kvs' kv where sn: "kvs = kvs' @ [kv]"
    using kvs(1) by (cases kvs rule: rev_cases) auto
  have safe: "list_all isAlpha (lit (fst kv))" "wireSafe (snd kv)"
    using kvs(2) by (simp_all add: sn)
  have l: "last (headerLine t to # ls) = last (splitNL (fieldLine (fst kv) (snd kv)))"
    by (simp add: ls_def sn)
  have e: "last (splitNL (fieldLine (fst kv) (snd kv))) \<noteq> [] \<and>
      last (last (splitNL (fieldLine (fst kv) (snd kv)))) = last (fieldLine (fst kv) (snd kv))"
    using fieldLine_plain(2,4) [OF safe] by (rule last_splitNL)
  have bl: "blockLines w = Some (headerLine t to # ls)"
    unfolding flat
  proof (rule blockLines_wire)
    show "last (headerLine t to # ls) \<noteq> []"
      unfolding l using e by simp
    show "\<not> isSpace (last (last (headerLine t to # ls)))"
      unfolding l using e safe by (simp add: fieldLine_plain(3) wireSafe_def)
  qed (use lines headerLine_plain(3,4) [OF to(2)] in simp_all)
  have hm: "headerMatch (headerLine t to) = Some (typeName t, to)"
    using to by (intro headerMatch_headerLine) (simp_all add: list_all_iff)
  have pf: "r = parseFields (initialResult t to w) ls"
    unfolding r ls_def using kvs(2) by (rule parseFields_fieldLines [symmetric])
  show ?thesis
    using bl hm validType_typeName pf acc by (rule parse_accept)
qed

lemma validateRequired_None_iff:
  "validateRequired es t = None \<longleftrightarrow> list_all (\<lambda>e. truthy (snd e)) es"
  by (induction es t rule: validateRequired.induct) auto

lemma wireSafe_generateRequestId:
  assumes "nanoidOutput nano"
  shows "wireSafe (generateRequestId nano botname)"
proof -
  define clean where
    "clean = filter (\<lambda>c. (97 \<le> c \<and> c \<le> 122) \<or> (48 \<le> c \<and> c \<le> 57)) (toLowerCase botname)"
  have g: "generateRequestId nano botname = clean @ 45 # nano"
    by (simp add: generateRequestId_def clean_def lit_def)
  have plain: "\<not> isSpace c \<and> c \<noteq> BACKTICK \<and> \<not> isLineTerminator c"
    if "(97 \<le> c \<and> c \<le> 122) \<or> (48 \<le> c \<and> c \<le> 57) \<or> c = 45" for c
    using that by (auto simp add: isSpace_def BACKTICK_def isLineTerminator_def)
  have c: "\<forall>c \<in> set clean. (97 \<le> c \<and> c \<le> 122) \<or> (48 \<le> c \<and> c \<le> 57)"
    by (auto simp add: clean_def)
  have n: "nano \<noteq> []" "\<forall>c \<in> set nano. (97 \<le> c \<and> c \<le> 122) \<or> (48 \<le> c \<and> c \<le> 57)"
    using assms by (auto simp add: nanoidOutput_def list_all_iff)
  have all: "\<forall>x \<in> set (clean @ 45 # nano). \<not> isSpace x \<and> x \<noteq> BACKTICK \<and> \<not> isLineTerminator x"
  proof
    fix x assume "x \<in> set (clean @ 45 # nano)"
    then have "(97 \<le> x \<and> x \<le> 122) \<or> (48 \<le> x \<and> x \<le> 57) \<or> x = 45"
      using c n(2) by auto
    then show "\<not> isSpace x \<and> x \<noteq> BACKTICK \<and> \<not> isLineTerminator x"
      by (rule plain)
  qed
  have "hd (clean @ 45 # nano) \<in> set (clean @ 45 # nano)"
    "last (clean @ 45 # nano) \<in> set (clean @ 45 # nano)"
    by (rule hd_in_set, simp, rule last_in_set, simp)
  then have "\<not> isSpace (hd (clean @ 45 # nano))" "\<not> isSpace (last (clean @ 45 # nano))"
    using all by blast+
  then show ?thesis
    unfolding g using all by (intro wireSafe_line) (simp_all add: list_all_iff)
qed

lemma safeText_truthy: "safeText v \<Longrightarrow> truthy v \<Longrightarrow> wireSafe (text_of v)"
  by (simp add: safeText_def)

lemma optField_good:
  "safeText v \<Longrightarrow> \<forall>kv \<in> set (optField k v). fst kv = k \<and> wireSafe (snd kv)"
  by (simp add: optField_def safeText_def)

lemma optLine_optField: "optLine k v = map (\<lambda>kv. fieldLine (fst kv) (snd kv)) (optField k v)"
  by (simp add: optLine_def optField_def)

lemma wireSafe_requestIdOf:
  "safeText (f_requestId f) \<Longrightarrow> nanoidOutput nano \<Longrightarrow> wireSafe (requestIdOf nano f)"
  by (simp add: requestIdOf_def safeText_def wireSafe_generateRequestId)

lemma buildRequest_accepts:
  assumes "buildRequest nano f = Inr w"
  shows "truthy (f_to f)" "truthy (f_from f)" "truthy (f_task f)"
    "d_current (defaultDepth (f_depth f)) \<noteq> d_max (defaultDepth (f_depth f))"
proof -
  have v: "validateRequired [(lit ''to'', f_to f), (lit ''from'', f_from f), (lit ''task'', f_task f)]
      REQUEST = None"
    using assms by (cases "validateRequired [(lit ''to'', f_to f), (lit ''from'', f_from f),
      (lit ''task'', f_task f)] REQUEST") (simp_all add: buildRequest_def)
  then show "truthy (f_to f)" "truthy (f_from f)" "truthy (f_task f)"
    unfolding validateRequired_None_iff by simp_all
  show "d_current (defaultDepth (f_depth f)) \<noteq> d_max (defaultDepth (f_depth f))"
  proof
    assume "d_current (defaultDepth (f_depth f)) = d_max (defaultDepth (f_depth f))"
    then have "\<exists>e. buildRequest nano f = Inl e"
      by (simp add: buildRequest_def v Let_def)
    then show False using assms by auto
  qed
qed

lemma roundtrip_request:
  assumes b: "buildRequest nano f = Inr w"
    and safe: "list_all safeText [f_to f, f_from f, f_requestId f, f_task f, f_context f,
        f_callback f, f_priority f]"
    and to: "list_all (\<lambda>c. \<not> isSpace c) (text_of (f_to f))"
    and nano: "nanoidOutput nano"
  shows "\<exists>m. parse w = Some m \<and> m_type m = REQUEST \<and> m_to m = text_of (f_to f) \<and>
    m_from m = f_from f \<and> m_requestId m = Some (requestIdOf nano f) \<and> m_task m = f_task f"
proof -
  note acc = buildRequest_accepts [OF b]
  define d where "d = defaultDepth (f_depth f)"
  define first where "first = [(''From'', text_of (f_from f)), (''RequestId'', requestIdOf nano f),
      (''Task'', text_of (f_task f))]"
  define others where "others = optField ''Context'' (f_context f) @ [(''Depth'', depthText d)] @
      optField ''Callback'' (f_callback f) @ optField ''Priority'' (f_priority f)"
  have s: "wireSafe (text_of (f_to f))" "wireSafe (text_of (f_from f))"
    "wireSafe (text_of (f_task f))" "wireSafe (requestIdOf nano f)"
    using safe acc nano by (simp_all add: safeText_truthy wireSafe_requestIdOf)
  have to': "text_of (f_to f) \<noteq> []"
      "list_all (\<lambda>c. \<not> isSpace c \<and> c \<noteq> BACKTICK) (text_of (f_to f))"
    using s(1) to by (auto simp add: wireSafe_def list_all_iff)
  have o: "\<forall>kv \<in> set others.
      (fst kv = ''Context'' \<or> fst kv = ''Depth'' \<or> fst kv = ''Callback'' \<or> fst kv = ''Priority'') \<and>
      wireSafe (snd kv)"
    using safe optField_good [of "f_context f" "''Context''"]
      optField_good [of "f_callback f" "''Callback''"]
      optField_good [of "f_priority f" "''Priority''"]
    by (auto simp add: others_def wireSafe_depthText)
  have good: "\<forall>kv \<in> set (first @ others).
      lit (fst kv) \<noteq> [] \<and> list_all isAlpha (lit (fst kv)) \<and> wireSafe (snd kv)"
    using o s by (auto simp add: first_def wireKey_facts)
  have w: "w = wire (headerLine REQUEST (text_of (f_to f)) #
      map (\<lambda>kv. fieldLine (fst kv) (snd kv)) (first @ others))"
    using b by (simp add: buildRequest_wire [OF acc] first_def others_def optLine_optField d_def)
  define init where "init = initialResult REQUEST (text_of (f_to f)) w"
  define r where "r = saveAll init (first @ others)"
  have r1: "saveAll init first =
      init\<lparr>m_from := Some (text_of (f_from f)), m_requestId := Some (requestIdOf nano f),
           m_task := Some (text_of (f_task f))\<rparr>"
    by (simp add: first_def save_wireKey s)
  have r: "r = saveAll (saveAll init first) others"
    by (simp add: r_def)
  have i: "m_type init = REQUEST" "m_to init = text_of (f_to f)"
    by (simp_all add: init_def initialResult_def)
  have fields: "m_type r = REQUEST" "m_to r = text_of (f_to f)"
    "m_from r = Some (text_of (f_from f))" "m_requestId r = Some (requestIdOf nano f)"
    "m_task r = Some (text_of (f_task f))"
    unfolding r using saveAll_frame [OF o, of "saveAll init first"]
    by (simp_all add: r1 i)
  have t: "truthy (Some (text_of (f_from f)))" "truthy (Some (requestIdOf nano f))"
    "truthy (Some (text_of (f_task f)))"
    using s by (simp_all add: truthy_def wireSafe_def)
  have "parse w = Some (parseDepth r)"
    using to' _ good w r_def [unfolded init_def]
  proof (rule parse_wire)
    show "first @ others \<noteq> []"
      by (simp add: first_def)
  qed (simp_all add: fields t)
  moreover have "m_from r = f_from f" "m_task r = f_task f"
    using acc by (auto simp add: fields truthy_def text_of_def split: option.splits)
  ultimately show ?thesis
    by (simp add: fields)
qed

lemma buildHandoff_accepts:
  assumes "buildHandoff f = Inr w"
  shows "truthy (f_to f)" "truthy (f_from f)" "truthy (f_requestId f)" "truthy (f_task f)"
    "d_current (defaultDepth (f_depth f)) \<noteq> d_max (defaultDepth (f_depth f))"
proof -
  have v: "validateRequired [(lit ''to'', f_to f), (lit ''from'', f_from f),
      (lit ''requestId'', f_requestId f), (lit ''task'', f_task f)] HANDOFF = None"
    using assms by (cases "validateRequired [(lit ''to'', f_to f), (lit ''from'', f_from f),
      (lit ''requestId'', f_requestId f), (lit ''task'', f_task f)] HANDOFF")
      (simp_all add: buildHandoff_def)
  then show "truthy (f_to f)" "truthy (f_from f)" "truthy (f_requestId f)" "truthy (f_task f)"
    unfolding validateRequired_None_iff by simp_all
  show "d_current (defaultDepth (f_depth f)) \<noteq> d_max (defaultDepth (f_depth f))"
  proof
    assume "d_current (defaultDepth (f_depth f)) = d_max (defaultDepth (f_depth f))"
    then have "\<exists>e. buildHandoff f = Inl e"
      by (simp add: buildHandoff_def v Let_def)
    then show False using assms by auto
  qed
qed

lemma buildClarify_accepts:
  assumes "buildClarify f = Inr w"
  shows "truthy (f_to f)" "truthy (f_from f)" "truthy (f_requestId f)" "truthy (f_question f)"
    "d_current (defaultDepth (f_depth f)) \<noteq> d_max (defaultDepth (f_depth f))"
proof -
  have v: "validateRequired [(lit ''to'', f_to f), (lit ''from'', f_from f),
      (lit ''requestId'', f_requestId f), (lit ''question'', f_question f)] CLARIFY = None"
    using assms by (cases "validateRequired [(lit ''to'', f_to f), (lit ''from'', f_from f),
      (lit ''requestId'', f_requestId f), (lit ''question'', f_question f)] CLARIFY")
      (simp_all add: buildClarify_def)
  then show "truthy (f_to f)" "truthy (f_from f)" "truthy (f_requestId f)"
      "truthy (f_question f)"
    unfolding validateRequired_None_iff by simp_all
  show "d_current (defaultDepth (f_depth f)) \<noteq> d_max (defaultDepth (f_depth f))"
  proof
    assume "d_current (defaultDepth (f_depth f)) = d_max (defaultDepth (f_depth f))"
    then have "\<exists>e. buildClarify f = Inl e"
      by (simp add: buildClarify_def v Let_def)
    then show False using assms by auto
  qed
qed

lemma buildResponse_accepts:
  assumes "buildResponse f = Inr w"
  shows "truthy (f_to f)" "truthy (f_from f)" "truthy (f_requestId f)"
    "truthy (f_status f) \<or> truthy (f_result f)"
proof -
  have v: "validateRequired [(lit ''to'', f_to f), (lit ''from'', f_from f),
      (lit ''requestId'', f_requestId f)] RESPONSE = None"
    using assms by (cases "validateRequired [(lit ''to'', f_to f), (lit ''from'', f_from f),
      (lit ''requestId'', f_requestId f)] RESPONSE") (simp_all add: buildResponse_def)
  then show "truthy (f_to f)" "truthy (f_from f)" "truthy (f_requestId f)"
    unfolding validateRequired_None_iff by simp_all
  show "truthy (f_status f) \<or> truthy (f_result f)"
  proof (rule ccontr)
    assume "\<not> (truthy (f_status f) \<or> truthy (f_result f))"
    then have "\<exists>e. buildResponse f = Inl e"
      by (simp add: buildResponse_def v)
    then show False using assms by auto
  qed
qed

lemma buildBroadcast_accepts:
  assumes "buildBroadcast nano f = Inr w"
  shows "truthy (f_from f)" "truthy (f_message f)"
proof -
  have v: "validateRequired [(lit ''from'', f_from f), (lit ''message'', f_message f)]
      BROADCAST = None"
    using assms by (cases "validateRequired [(lit ''from'', f_from f),
      (lit ''message'', f_message f)] BROADCAST") (simp_all add: buildBroadcast_def)
  then show "truthy (f_from f)" "truthy (f_message f)"
    unfolding validateRequired_None_iff by simp_all
qed

lemma truthy_text_of: "truthy v \<Longrightarrow> Some (text_of v) = v"
  by (cases v) (simp_all add: truthy_def text_of_def)

lemma truthy_wireSafe: "wireSafe v \<Longrightarrow> truthy (Some v)"
  by (simp add: truthy_def wireSafe_def)

lemma roundtrip_handoff:
  assumes b: "buildHandoff f = Inr w"
    and safe: "list_all safeText [f_to f, f_from f, f_requestId f, f_task f, f_context f,
        f_callback f, f_priority f]"
    and to: "list_all (\<lambda>c. \<not> isSpace c) (text_of (f_to f))"
  shows "\<exists>m. parse w = Some m \<and> m_type m = HANDOFF \<and> m_to m = text_of (f_to f) \<and>
    m_from m = f_from f \<and> m_requestId m = f_requestId f \<and> m_task m = f_task f"
proof -
  note acc = buildHandoff_accepts [OF b]
  define d where "d = defaultDepth (f_depth f)"
  define first where "first = [(''From'', text_of (f_from f)),
      (''RequestId'', text_of (f_requestId f)), (''Task'', text_of (f_task f))]"
  define others where "others = optField ''Context'' (f_context f) @ [(''Depth'', depthText d)] @
      optField ''Callback'' (f_callback f) @ optField ''Priority'' (f_priority f)"
  have s: "wireSafe (text_of (f_to f))" "wireSafe (text_of (f_from f))"
    "wireSafe (text_of (f_task f))" "wireSafe (text_of (f_requestId f))"
    using safe acc by (simp_all add: safeText_truthy)
  have to': "text_of (f_to f) \<noteq> []"
      "list_all (\<lambda>c. \<not> isSpace c \<and> c \<noteq> BACKTICK) (text_of (f_to f))"
    using s(1) to by (auto simp add: wireSafe_def list_all_iff)
  have o: "\<forall>kv \<in> set others.
      (fst kv = ''Context'' \<or> fst kv = ''Depth'' \<or> fst kv = ''Callback'' \<or> fst kv = ''Priority'') \<and>
      wireSafe (snd kv)"
    using safe optField_good [of "f_context f" "''Context''"]
      optField_good [of "f_callback f" "''Callback''"]
      optField_good [of "f_priority f" "''Priority''"]
    by (auto simp add: others_def wireSafe_depthText)
  have good: "\<forall>kv \<in> set (first @ others).
      lit (fst kv) \<noteq> [] \<and> list_all isAlpha (lit (fst kv)) \<and> wireSafe (snd kv)"
    using o s by (auto simp add: first_def wireKey_facts)
  have w: "w = wire (headerLine HANDOFF (text_of (f_to f)) #
      map (\<lambda>kv. fieldLine (fst kv) (snd kv)) (first @ others))"
    using b by (simp add: buildHandoff_wire [OF acc] first_def others_def optLine_optField d_def)
  define init where "init = initialResult HANDOFF (text_of (f_to f)) w"
  define r where "r = saveAll init (first @ others)"
  have r1: "saveAll init first =
      init\<lparr>m_from := Some (text_of (f_from f)), m_requestId := Some (text_of (f_requestId f)),
           m_task := Some (text_of (f_task f))\<rparr>"
    by (simp add: first_def save_wireKey s)
  have r: "r = saveAll (saveAll init first) others"
    by (simp add: r_def)
  have i: "m_type init = HANDOFF" "m_to init = text_of (f_to f)"
    by (simp_all add: init_def initialResult_def)
  have fields: "m_type r = HANDOFF" "m_to r = text_of (f_to f)"
    "m_from r = Some (text_of (f_from f))" "m_requestId r = Some (text_of (f_requestId f))"
    "m_task r = Some (text_of (f_task f))"
    unfolding r using saveAll_frame [OF o, of "saveAll init first"]
    by (simp_all add: r1 i)
  have "parse w = Some (parseDepth r)"
    using to' _ good w r_def [unfolded init_def]
  proof (rule parse_wire)
    show "first @ others \<noteq> []"
      by (simp add: first_def)
  qed (simp_all add: fields truthy_wireSafe s)
  then show ?thesis
    using acc by (simp add: fields truthy_text_of)
qed

lemma roundtrip_clarify:
  assumes b: "buildClarify f = Inr w"
    and safe: "list_all safeText [f_to f, f_from f, f_requestId f, f_question f]"
    and to: "list_all (\<lambda>c. \<not> isSpace c) (text_of (f_to f))"
  shows "\<exists>m. parse w = Some m \<and> m_type m = CLARIFY \<and> m_to m = text_of (f_to f) \<and>
    m_from m = f_from f \<and> m_requestId m = f_requestId f \<and> m_question m = f_question f"
proof -
  note acc = buildClarify_accepts [OF b]
  define d where "d = defaultDepth (f_depth f)"
  define first where "first = [(''From'', text_of (f_from f)),
      (''RequestId'', text_of (f_requestId f)), (''Question'', text_of (f_question f))]"
  define others where "others = [(''Depth'', depthText d)]"
  have s: "wireSafe (text_of (f_to f))" "wireSafe (text_of (f_from f))"
    "wireSafe (text_of (f_question f))" "wireSafe (text_of (f_requestId f))"
    using safe acc by (simp_all add: safeText_truthy)
  have to': "text_of (f_to f) \<noteq> []"
      "list_all (\<lambda>c. \<not> isSpace c \<and> c \<noteq> BACKTICK) (text_of (f_to f))"
    using s(1) to by (auto simp add: wireSafe_def list_all_iff)
  have o: "\<forall>kv \<in> set others.
      (fst kv = ''Context'' \<or> fst kv = ''Depth'' \<or> fst kv = ''Callback'' \<or> fst kv = ''Priority'') \<and>
      wireSafe (snd kv)"
    by (simp add: others_def wireSafe_depthText)
  have good: "\<forall>kv \<in> set (first @ others).
      lit (fst kv) \<noteq> [] \<and> list_all isAlpha (lit (fst kv)) \<and> wireSafe (snd kv)"
    using o s by (auto simp add: first_def wireKey_facts)
  have w: "w = wire (headerLine CLARIFY (text_of (f_to f)) #
      map (\<lambda>kv. fieldLine (fst kv) (snd kv)) (first @ others))"
    using b by (simp add: buildClarify_wire [OF acc] first_def others_def d_def)
  define init where "init = initialResult CLARIFY (text_of (f_to f)) w"
  define r where "r = saveAll init (first @ others)"
  have r1: "saveAll init first =
      init\<lparr>m_from := Some (text_of (f_from f)), m_requestId := Some (text_of (f_requestId f)),
           m_question := Some (text_of (f_question f))\<rparr>"
    by (simp add: first_def save_wireKey s)
  have r: "r = saveAll (saveAll init first) others"
    by (simp add: r_def)
  have i: "m_type init = CLARIFY" "m_to init = text_of (f_to f)"
    by (simp_all add: init_def initialResult_def)
  have fields: "m_type r = CLARIFY" "m_to r = text_of (f_to f)"
    "m_from r = Some (text_of (f_from f))" "m_requestId r = Some (text_of (f_requestId f))"
    "m_question r = Some (text_of (f_question f))"
    unfolding r using saveAll_frame [OF o, of "saveAll init first"]
    by (simp_all add: r1 i)
  have "parse w = Some (parseDepth r)"
    using to' _ good w r_def [unfolded init_def]
  proof (rule parse_wire)
    show "first @ others \<noteq> []"
      by (simp add: first_def)
  qed (simp_all add: fields truthy_wireSafe s)
  then show ?thesis
    using acc by (simp add: fields truthy_text_of)
qed

lemma roundtrip_broadcast:
  assumes b: "buildBroadcast nano f = Inr w"
    and safe: "list_all safeText [f_from f, f_requestId f, f_message f, f_context f]"
    and nano: "nanoidOutput nano"
  shows "\<exists>m. parse w = Some m \<and> m_type m = BROADCAST \<and> m_to m = lit ''all'' \<and>
    m_from m = f_from f \<and> m_requestId m = Some (requestIdOf nano f) \<and>
    m_message m = f_message f"
proof -
  note acc = buildBroadcast_accepts [OF b]
  define d where "d = defaultDepth (f_depth f)"
  define first where "first = [(''From'', text_of (f_from f)),
      (''RequestId'', requestIdOf nano f), (''Message'', text_of (f_message f))]"
  define others where "others = optField ''Context'' (f_context f) @ [(''Depth'', depthText d)]"
  have s: "wireSafe (text_of (f_from f))" "wireSafe (text_of (f_message f))"
    "wireSafe (requestIdOf nano f)"
    using safe acc nano by (simp_all add: safeText_truthy wireSafe_requestIdOf)
  have to': "lit ''all'' \<noteq> []"
      "list_all (\<lambda>c. \<not> isSpace c \<and> c \<noteq> BACKTICK) (lit ''all'')"
    by (simp_all add: lit_def isSpace_def BACKTICK_def)
  have o: "\<forall>kv \<in> set others.
      (fst kv = ''Context'' \<or> fst kv = ''Depth'' \<or> fst kv = ''Callback'' \<or> fst kv = ''Priority'') \<and>
      wireSafe (snd kv)"
    using safe optField_good [of "f_context f" "''Context''"]
    by (auto simp add: others_def wireSafe_depthText)
  have good: "\<forall>kv \<in> set (first @ others).
      lit (fst kv) \<noteq> [] \<and> list_all isAlpha (lit (fst kv)) \<and> wireSafe (snd kv)"
    using o s by (auto simp add: first_def wireKey_facts)
  have w: "w = wire (headerLine BROADCAST (lit ''all'') #
      map (\<lambda>kv. fieldLine (fst kv) (snd kv)) (first @ others))"
    using b by (simp add: buildBroadcast_wire [OF acc] first_def others_def optLine_optField d_def)
  define init where "init = initialResult BROADCAST (lit ''all'') w"
  define r where "r = saveAll init (first @ others)"
  have r1: "saveAll init first =
      init\<lparr>m_from := Some (text_of (f_from f)), m_requestId := Some (requestIdOf nano f),
           m_message := Some (text_of (f_message f))\<rparr>"
    by (simp add: first_def save_wireKey s)
  have r: "r = saveAll (saveAll init first) others"
    by (simp add: r_def)
  have i: "m_type init = BROADCAST" "m_to init = lit ''all''"
    by (simp_all add: init_def initialResult_def)
  have fields: "m_type r = BROADCAST" "m_to r = lit ''all''"
    "m_from r = Some (text_of (f_from f))" "m_requestId r = Some (requestIdOf nano f)"
    "m_message r = Some (text_of (f_message f))"
    unfolding r using saveAll_frame [OF o, of "saveAll init first"]
    by (simp_all add: r1 i)
  have "parse w = Some (parseDepth r)"
    using to' _ good w r_def [unfolded init_def]
  proof (rule parse_wire)
    show "first @ others \<noteq> []"
      by (simp add: first_def)
  qed (simp_all add: fields truthy_wireSafe s)
  then show ?thesis
    using acc by (simp add: fields truthy_text_of)
qed

lemma wireSafe_status: "v \<in> set VALID_STATUSES \<Longrightarrow> wireSafe v"
  by (rule wireSafe_line)
    (auto simp add: VALID_STATUSES_def lit_def isSpace_def BACKTICK_def isLineTerminator_def)

lemma roundtrip_response:
  assumes b: "buildResponse f = Inr w"
    and safe: "list_all safeText [f_to f, f_from f, f_requestId f, f_result f, f_context f]"
    and status: "truthy (f_status f) \<longrightarrow> text_of (f_status f) \<in> set VALID_STATUSES"
    and to: "list_all (\<lambda>c. \<not> isSpace c) (text_of (f_to f))"
  shows "\<exists>m. parse w = Some m \<and> m_type m = RESPONSE \<and> m_to m = text_of (f_to f) \<and>
    m_from m = f_from f \<and> m_requestId m = f_requestId f \<and>
    m_status m = (if truthy (f_status f) then f_status f else None) \<and>
    m_result m = (if truthy (f_result f) then f_result f else None)"
proof -
  note acc = buildResponse_accepts [OF b]
  define d where "d = defaultDepth (f_depth f)"
  define first where "first = [(''From'', text_of (f_from f)),
      (''RequestId'', text_of (f_requestId f))] @ optField ''Status'' (f_status f) @
      optField ''Result'' (f_result f)"
  define others where "others = optField ''Context'' (f_context f) @ [(''Depth'', depthText d)]"
  have s: "wireSafe (text_of (f_to f))" "wireSafe (text_of (f_from f))"
    "wireSafe (text_of (f_requestId f))"
    using safe acc by (simp_all add: safeText_truthy)
  have st: "truthy (f_status f) \<Longrightarrow> wireSafe (text_of (f_status f))"
    and res: "truthy (f_result f) \<Longrightarrow> wireSafe (text_of (f_result f))"
    using status safe by (simp_all add: wireSafe_status safeText_truthy)
  have to': "text_of (f_to f) \<noteq> []"
      "list_all (\<lambda>c. \<not> isSpace c \<and> c \<noteq> BACKTICK) (text_of (f_to f))"
    using s(1) to by (auto simp add: wireSafe_def list_all_iff)
  have o: "\<forall>kv \<in> set others.
      (fst kv = ''Context'' \<or> fst kv = ''Depth'' \<or> fst kv = ''Callback'' \<or> fst kv = ''Priority'') \<and>
      wireSafe (snd kv)"
    using safe optField_good [of "f_context f" "''Context''"]
    by (auto simp add: others_def wireSafe_depthText)
  have good: "\<forall>kv \<in> set (first @ others).
      lit (fst kv) \<noteq> [] \<and> list_all isAlpha (lit (fst kv)) \<and> wireSafe (snd kv)"
    using o s st res by (auto simp add: first_def wireKey_facts optField_def)
  have w: "w = wire (headerLine RESPONSE (text_of (f_to f)) #
      map (\<lambda>kv. fieldLine (fst kv) (snd kv)) (first @ others))"
    using b by (simp add: buildResponse_wire [OF acc] first_def others_def optLine_optField d_def)
  define init where "init = initialResult RESPONSE (text_of (f_to f)) w"
  define r where "r = saveAll init (first @ others)"
  have r1: "saveAll init first =
      init\<lparr>m_from := Some (text_of (f_from f)), m_requestId := Some (text_of (f_requestId f)),
           m_status := (if truthy (f_status f) then Some (text_of (f_status f)) else None),
           m_result := (if truthy (f_result f) then Some (text_of (f_result f)) else None)\<rparr>"
    using status st res
    by (simp add: first_def save_wireKey s optField_def init_def initialResult_def)
  have r: "r = saveAll (saveAll init first) others"
    by (simp add: r_def)
  have i: "m_type init = RESPONSE" "m_to init = text_of (f_to f)"
    by (simp_all add: init_def initialResult_def)
  have fields: "m_type r = RESPONSE" "m_to r = text_of (f_to f)"
    "m_from r = Some (text_of (f_from f))" "m_requestId r = Some (text_of (f_requestId f))"
    "m_status r = (if truthy (f_status f) then Some (text_of (f_status f)) else None)"
    "m_result r = (if truthy (f_result f) then Some (text_of (f_result f)) else None)"
    unfolding r using saveAll_frame [OF o, of "saveAll init first"]
    by (simp_all add: r1 i)
  have one: "truthy (m_result r) \<or> truthy (m_status r)"
    using acc(4) st res by (auto simp add: fields truthy_wireSafe)
  have "parse w = Some (parseDepth r)"
    using to' _ good w r_def [unfolded init_def]
  proof (rule parse_wire)
    show "first @ others \<noteq> []"
      by (simp add: first_def)
  qed (simp_all add: fields(1-4) truthy_wireSafe s one)
  then show ?thesis
    using acc by (simp add: fields truthy_text_of)
qed

lemma build_tickFields: "buildRequest (lit ''abc123'') tickFields = Inr tickWire"
  by (simp add: buildRequest_def tickFields_def tickWire_def truthy_def text_of_def
      defaultDepth_def numToString.simps Let_def lit_def)

lemma codeBlockMatch_tickWire: "codeBlockMatch tickWire = None"
  unfolding tickWire_def by (simp add: lit_def NL_def ARROW_def BACKTICK_def)

text \<open>
  C1 as stated fails: the builders copy their fields into the text as they are, and the
  parser does not read every text back. A task with a backtick gives a message that is not
  parsed at all.
\<close>

theorem roundtrip_counterexample:
  "buildRequest (lit ''abc123'') tickFields = Inr tickWire \<and> parse tickWire = None"
  using build_tickFields by (simp add: parse_def blockLines_def codeBlockMatch_tickWire)

text \<open>
  C1, amended. Let a builder accept a field mapping in which every text field that it
  emits is wire-safe: the value is not empty, has no white space at either end and no
  backtick, its first line has no line terminator (CR, LS, PS), and none of its later
  lines is itself a field line (letters, a colon, and a rest without line terminator).
  Values of several lines are wire-safe. Let also the recipient have no white space, a
  status be one of done, partial, failed, and the random suffix come from \<open>nanoid\<close>. Then
  \<open>parse\<close> accepts the text and returns a message of the builder's type whose \<open>to\<close>,
  \<open>from\<close>, \<open>requestId\<close> (the generated one when none was given) and payload (\<open>task\<close>,
  \<open>question\<close>, \<open>status\<close> and \<open>result\<close>, \<open>message\<close>) are those of the mapping; an empty or
  missing \<open>status\<close> or \<open>result\<close> comes back as none.
\<close>

theorem roundtrip:
  "(buildRequest nano f = Inr w \<and>
    list_all safeText [f_to f, f_from f, f_requestId f, f_task f, f_context f, f_callback f,
      f_priority f] \<and>
    list_all (\<lambda>c. \<not> isSpace c) (text_of (f_to f)) \<and> nanoidOutput nano \<longrightarrow>
      (\<exists>m. parse w = Some m \<and> m_type m = REQUEST \<and> m_to m = text_of (f_to f) \<and>
         m_from m = f_from f \<and> m_requestId m = Some (requestIdOf nano f) \<and>
         m_task m = f_task f)) \<and>
   (buildHandoff f = Inr w \<and>
    list_all safeText [f_to f, f_from f, f_requestId f, f_task f, f_context f, f_callback f,
      f_priority f] \<and>
    list_all (\<lambda>c. \<not> isSpace c) (text_of (f_to f)) \<longrightarrow>
      (\<exists>m. parse w = Some m \<and> m_type m = HANDOFF \<and> m_to m = text_of (f_to f) \<and>
         m_from m = f_from f \<and> m_requestId m = f_requestId f \<and> m_task m = f_task f)) \<and>
   (buildClarify f = Inr w \<and>
    list_all safeText [f_to f, f_from f, f_requestId f, f_question f] \<and>
    list_all (\<lambda>c. \<not> isSpace c) (text_of (f_to f)) \<longrightarrow>
      (\<exists>m. parse w = Some m \<and> m_type m = CLARIFY \<and> m_to m = text_of (f_to f) \<and>
         m_from m = f_from f \<and> m_requestId m = f_requestId f \<and>
         m_question m = f_question f)) \<and>
   (buildResponse f = Inr w \<and>
    list_all safeText [f_to f, f_from f, f_requestId f, f_result f, f_context f] \<and>
    (truthy (f_status f) \<longrightarrow> text_of (f_status f) \<in> set VALID_STATUSES) \<and>
    list_all (\<lambda>c. \<not> isSpace c) (text_of (f_to f)) \<longrightarrow>
      (\<exists>m. parse w = Some m \<and> m_type m = RESPONSE \<and> m_to m = text_of (f_to f) \<and>
         m_from m = f_from f \<and> m_requestId m = f_requestId f \<and>
         m_status m = (if truthy (f_status f) then f_status f else None) \<and>
         m_result m = (if truthy (f_result f) then f_result f else None))) \<and>
   (buildBroadcast nano f = Inr w \<and>
    list_all safeText [f_from f, f_requestId f, f_message f, f_context f] \<and>
    nanoidOutput nano \<longrightarrow>
      (\<exists>m. parse w = Some m \<and> m_type m = BROADCAST \<and> m_to m = lit ''all'' \<and>
         m_from m = f_from f \<and> m_requestId m = Some (requestIdOf nano f) \<and>
         m_message m = f_message f))"
  using roundtrip_request [of nano f w] roundtrip_handoff [of f w] roundtrip_clarify [of f w]
    roundtrip_response [of f w] roundtrip_broadcast [of nano f w]
  by blast

lemma sample_wireSafe:
  "wireSafe (lit ''Mantis'')" "wireSafe (lit ''Lotbot'')" "wireSafe (lit ''lotbot-abc123'')"
  "wireSafe (lit ''Check CLI version'')" "wireSafe (lit ''normal'')"
  "wireSafe (lit ''CLI is up to date'')" "wireSafe (lit ''Which version?'')"
  "wireSafe (lit ''Going offline'')"
  by (rule wireSafe_line; simp add: lit_def isSpace_def BACKTICK_def isLineTerminator_def)+

lemma sample_safe:
  "safeText (f_to (sampleFields c m))" "safeText (f_from (sampleFields c m))"
  "safeText (f_requestId (sampleFields c m))" "safeText (f_task (sampleFields c m))"
  "safeText (f_context (sampleFields c m))" "safeText (f_callback (sampleFields c m))"
  "safeText (f_priority (sampleFields c m))" "safeText (f_result (sampleFields c m))"
  "safeText (f_question (sampleFields c m))" "safeText (f_message (sampleFields c m))"
  "list_all (\<lambda>c. \<not> isSpace c) (text_of (f_to (sampleFields c m)))"
  "truthy (f_status (sampleFields c m)) \<longrightarrow>
     text_of (f_status (sampleFields c m)) \<in> set VALID_STATUSES"
  by (simp_all add: sampleFields_def safeText_def text_of_def sample_wireSafe truthy_def
      VALID_STATUSES_def, simp_all add: lit_def isSpace_def)

lemma multiline_wireSafe: "wireSafe multilineTask \<and> NL \<in> set multilineTask"
proof -
  have sp: "splitNL multilineTask =
      [lit ''Do these things:'', lit ''1. Check version'', lit ''2. Report status'',
       lit ''3. Clean up'']"
    unfolding multilineTask_def
    by (simp add: splitNL_append splitNL_line lit_def NL_def)
  have kv: "kvMatch (lit ''1. Check version'') = None" "kvMatch (lit ''2. Report status'') = None"
    "kvMatch (lit ''3. Clean up'') = None"
    by (simp_all add: kvMatch_def lit_def isAlpha_def)
  have lt: "\<not> list_ex isLineTerminator (lit ''Do these things:'')"
    by (simp add: lit_def isLineTerminator_def)
  have ends: "multilineTask \<noteq> []" "\<not> isSpace (hd multilineTask)"
    "\<not> isSpace (last multilineTask)" "BACKTICK \<notin> set multilineTask"
    "NL \<in> set multilineTask"
    by (simp_all add: multilineTask_def lit_def isSpace_def BACKTICK_def NL_def)
  show ?thesis
    using ends by (simp add: wireSafe_def sp kv lt)
qed

lemma multiline_safe:
  "list_all safeText [f_to multilineFields, f_from multilineFields, f_requestId multilineFields,
     f_task multilineFields, f_context multilineFields, f_callback multilineFields,
     f_priority multilineFields]"
  "list_all (\<lambda>c. \<not> isSpace c) (text_of (f_to multilineFields))"
  "truthy (f_to multilineFields)" "truthy (f_from multilineFields)"
  "truthy (f_task multilineFields)"
  "d_current (defaultDepth (f_depth multilineFields)) \<noteq>
     d_max (defaultDepth (f_depth multilineFields))"
  using multiline_wireSafe
  by (simp_all add: multilineFields_def safeText_def text_of_def sample_wireSafe truthy_def
      defaultDepth_def, simp_all add: lit_def isSpace_def wireSafe_def)

lemma sample_nano: "nanoidOutput (lit ''abc123'')"
  by (simp add: nanoidOutput_def lit_def)

lemma sample_truthy:
  "truthy (f_to (sampleFields c m))" "truthy (f_from (sampleFields c m))"
  "truthy (f_requestId (sampleFields c m))" "truthy (f_task (sampleFields c m))"
  "truthy (f_status (sampleFields c m))" "truthy (f_question (sampleFields c m))"
  "truthy (f_message (sampleFields c m))"
  by (simp_all add: sampleFields_def truthy_def)

lemma sample_depth:
  "d_current (defaultDepth (f_depth (sampleFields 1 5))) \<noteq>
     d_max (defaultDepth (f_depth (sampleFields 1 5)))"
  by (simp add: sampleFields_def defaultDepth_def)

theorem roundtrip_witness:
  "(\<exists>w m. buildRequest (lit ''abc123'') ((sampleFields 1 5)\<lparr>f_requestId := None\<rparr>) = Inr w \<and>
      parse w = Some m \<and> m_type m = REQUEST \<and> m_to m = lit ''Mantis'' \<and>
      m_from m = Some (lit ''Lotbot'') \<and> m_requestId m = Some (lit ''lotbot-abc123'') \<and>
      m_task m = Some (lit ''Check CLI version'')) \<and>
   (\<exists>w m. buildResponse (sampleFields 1 5) = Inr w \<and>
      parse w = Some m \<and> m_type m = RESPONSE \<and> m_to m = lit ''Mantis'' \<and>
      m_from m = Some (lit ''Lotbot'') \<and> m_requestId m = Some (lit ''lotbot-abc123'') \<and>
      m_status m = Some (lit ''done'') \<and> m_result m = Some (lit ''CLI is up to date'')) \<and>
   (\<exists>w m. buildRequest (lit ''abc123'') multilineFields = Inr w \<and>
      parse w = Some m \<and> m_type m = REQUEST \<and> m_to m = lit ''Mantis'' \<and>
      m_from m = Some (lit ''Lotbot'') \<and> m_requestId m = Some (lit ''lotbot-abc123'') \<and>
      m_task m = Some multilineTask \<and> NL \<in> set multilineTask)"
proof -
  define f1 where "f1 = (sampleFields 1 5)\<lparr>f_requestId := None\<rparr>"
  have t1: "truthy (f_to f1)" "truthy (f_from f1)" "truthy (f_task f1)"
    "d_current (defaultDepth (f_depth f1)) \<noteq> d_max (defaultDepth (f_depth f1))"
    using sample_truthy [of 1 5] sample_depth by (simp_all add: f1_def)
  obtain w1 where w1: "buildRequest (lit ''abc123'') f1 = Inr w1"
    using buildRequest_wire [OF t1] by blast
  have s1: "list_all safeText [f_to f1, f_from f1, f_requestId f1, f_task f1, f_context f1,
      f_callback f1, f_priority f1]"
      "list_all (\<lambda>c. \<not> isSpace c) (text_of (f_to f1))"
    using sample_safe [of 1 5] by (simp_all add: f1_def) (simp add: safeText_def truthy_def)
  have id: "requestIdOf (lit ''abc123'') f1 = lit ''lotbot-abc123''"
    by (simp add: requestIdOf_def f1_def sampleFields_def truthy_def text_of_def
        generateRequestId_def toLowerCase_def lowerCaseUnit_def lit_def)
  from roundtrip [of "lit ''abc123''" f1 w1] w1 s1 sample_nano
  obtain m1 where m1: "parse w1 = Some m1" "m_type m1 = REQUEST" "m_to m1 = text_of (f_to f1)"
    "m_from m1 = f_from f1" "m_requestId m1 = Some (requestIdOf (lit ''abc123'') f1)"
    "m_task m1 = f_task f1"
    by blast
  have a: "\<exists>w m. buildRequest (lit ''abc123'') f1 = Inr w \<and>
      parse w = Some m \<and> m_type m = REQUEST \<and> m_to m = lit ''Mantis'' \<and>
      m_from m = Some (lit ''Lotbot'') \<and> m_requestId m = Some (lit ''lotbot-abc123'') \<and>
      m_task m = Some (lit ''Check CLI version'')"
    using w1 m1 id by (auto simp add: f1_def sampleFields_def text_of_def)
  define f2 where "f2 = sampleFields 1 5"
  have t2: "truthy (f_to f2)" "truthy (f_from f2)" "truthy (f_requestId f2)"
    "truthy (f_status f2) \<or> truthy (f_result f2)"
    using sample_truthy [of 1 5] by (simp_all add: f2_def)
  obtain w2 where w2: "buildResponse f2 = Inr w2"
    using buildResponse_wire [OF t2] by blast
  have s2: "list_all safeText [f_to f2, f_from f2, f_requestId f2, f_result f2, f_context f2]"
      "truthy (f_status f2) \<longrightarrow> text_of (f_status f2) \<in> set VALID_STATUSES"
      "list_all (\<lambda>c. \<not> isSpace c) (text_of (f_to f2))"
    using sample_safe [of 1 5] by (simp_all add: f2_def)
  from roundtrip [of "lit ''abc123''" f2 w2] w2 s2
  obtain m2 where m2: "parse w2 = Some m2" "m_type m2 = RESPONSE" "m_to m2 = text_of (f_to f2)"
    "m_from m2 = f_from f2" "m_requestId m2 = f_requestId f2"
    "m_status m2 = (if truthy (f_status f2) then f_status f2 else None)"
    "m_result m2 = (if truthy (f_result f2) then f_result f2 else None)"
    by blast
  have b: "\<exists>w m. buildResponse f2 = Inr w \<and>
      parse w = Some m \<and> m_type m = RESPONSE \<and> m_to m = lit ''Mantis'' \<and>
      m_from m = Some (lit ''Lotbot'') \<and> m_requestId m = Some (lit ''lotbot-abc123'') \<and>
      m_status m = Some (lit ''done'') \<and> m_result m = Some (lit ''CLI is up to date'')"
    using w2 m2 by (auto simp add: f2_def sampleFields_def text_of_def truthy_def)
  obtain w3 where w3: "buildRequest (lit ''abc123'') multilineFields = Inr w3"
    using buildRequest_wire [OF multiline_safe(3,4,5,6)] by blast
  have id3: "requestIdOf (lit ''abc123'') multilineFields = lit ''lotbot-abc123''"
    by (simp add: requestIdOf_def multilineFields_def truthy_def text_of_def)
  from roundtrip [of "lit ''abc123''" multilineFields w3] w3 multiline_safe(1,2) sample_nano
  obtain m3 where m3: "parse w3 = Some m3" "m_type m3 = REQUEST"
    "m_to m3 = text_of (f_to multilineFields)" "m_from m3 = f_from multilineFields"
    "m_requestId m3 = Some (requestIdOf (lit ''abc123'') multilineFields)"
    "m_task m3 = f_task multilineFields"
    by blast
  have c: "\<exists>w m. buildRequest (lit ''abc123'') multilineFields = Inr w \<and>
      parse w = Some m \<and> m_type m = REQUEST \<and> m_to m = lit ''Mantis'' \<and>
      m_from m = Some (lit ''Lotbot'') \<and> m_requestId m = Some (lit ''lotbot-abc123'') \<and>
      m_task m = Some multilineTask \<and> NL \<in> set multilineTask"
    using w3 m3 id3 multiline_wireSafe by (auto simp add: multilineFields_def text_of_def)
  show ?thesis
    using a b c unfolding f1_def f2_def by blast
qed

end
